theory Spec2Isabelle
  imports Main "HOL-Library.Word" "HOL-Library.Monad_Syntax"
begin

section \<open>Pack and unpack kernels of \<^verbatim>\<open>pace/util/cuda_kernels.py\<close>\<close>

text \<open>
  The Python module builds the text of four CUDA kernels, once for \<^verbatim>\<open>double\<close> and once
  for \<^verbatim>\<open>float\<close>. The kernel bodies are modelled here as they are written: one function
  per kernel that gives the effect of a single CUDA thread on the array the kernel
  writes. The element type \<open>{fdtype}\<close> is the type variable \<open>'a\<close>: the scalar kernels only
  copy values, the vector pack kernel also multiplies by \<open>-1.0\<close>, which the model writes
  as multiplication by \<open>- 1\<close> in a ring (on IEEE numbers that product only flips the
  sign, as it does in a ring).

  Undefined behaviour of the C code (an array access outside the array, overflow of a
  signed \<^verbatim>\<open>int\<close> addition or subtraction) is the result \<open>None\<close>. The arrays a kernel
  receives are modelled as separate lists, so the source and index arrays are not
  changed by the writes to the destination.
\<close>

subsection \<open>C integers and arrays\<close>

text \<open>
  The value of a C \<^verbatim>\<open>int\<close> is an \<open>int\<close> in the 32-bit range. \<open>i_offset+tid\<close>,
  \<open>i_nIndexX+i_nIndexY\<close> and \<open>tid-i_nIndexX\<close> are signed operations: outside the range
  their behaviour is undefined. An array is the list of its elements; \<open>a[i]\<close> is defined
  for \<open>0 \<le> i < length a\<close> only, for a read and for a write.
\<close>

definition in_int :: "int \<Rightarrow> bool" where
  "in_int i = (- 2147483648 \<le> i \<and> i \<le> 2147483647)"

definition add_int :: "int \<Rightarrow> int \<Rightarrow> int option" where
  "add_int a b = (if in_int (a + b) then Some (a + b) else None)"

definition sub_int :: "int \<Rightarrow> int \<Rightarrow> int option" where
  "sub_int a b = (if in_int (a - b) then Some (a - b) else None)"

definition load :: "'a list \<Rightarrow> int \<Rightarrow> 'a option" where
  "load a i = (if 0 \<le> i \<and> i < int (length a) then Some (a ! nat i) else None)"

definition store :: "'a list \<Rightarrow> int \<Rightarrow> 'a \<Rightarrow> 'a list option" where
  "store a i v = (if 0 \<le> i \<and> i < int (length a) then Some (a[nat i := v]) else None)"

subsection \<open>Threads\<close>

text \<open>
  The built-in variables of a thread of a one-dimensional launch. They are
  \<^verbatim>\<open>unsigned int\<close>; the kernels compute
  \<^verbatim>\<open>int tid = blockDim.x * blockIdx.x + threadIdx.x\<close>, an unsigned
  expression (it wraps) converted to \<^verbatim>\<open>int\<close>.
\<close>

record thread =
  blockDim_x :: "32 word"
  blockIdx_x :: "32 word"
  threadIdx_x :: "32 word"

definition tid :: "thread \<Rightarrow> int" where
  "tid t = sint (blockDim_x t * blockIdx_x t + threadIdx_x t)"

text \<open>
  A launch runs the kernel body once for every thread of the grid. No thread of
  these kernels waits for another and each makes at most one write, so a run of
  the grid is a run of its threads one after the other in some order: the list
  \<open>ts\<close>. A thread whose behaviour is undefined makes the launch undefined.
\<close>

fun launch :: "(thread \<Rightarrow> 'm \<Rightarrow> 'm option) \<Rightarrow> thread list \<Rightarrow> 'm \<Rightarrow> 'm option" where
  "launch k [] m = Some m"
| "launch k (t # ts) m = (case k t m of None \<Rightarrow> None | Some m' \<Rightarrow> launch k ts m')"

text \<open>The threads of a launch of \<open>gridDim\<close> blocks of \<open>blockDim\<close> threads, block by block.\<close>

definition grid :: "nat \<Rightarrow> nat \<Rightarrow> thread list" where
  "grid gridDim blockDim =
     concat (map (\<lambda>b. map (\<lambda>i. \<lparr>blockDim_x = of_nat blockDim, blockIdx_x = of_nat b,
                                 threadIdx_x = of_nat i\<rparr>) [0..<blockDim]) [0..<gridDim])"

subsection \<open>Scalar kernels\<close>

text \<open>
  \<^verbatim>\<open>if (tid>=i_nIndex) return;
  o_destinationBuffer[i_offset+tid] = i_sourceArray[i_indexes[tid]];\<close>
\<close>

definition pack_scalar ::
  "'a list \<Rightarrow> int list \<Rightarrow> int \<Rightarrow> int \<Rightarrow> thread \<Rightarrow> 'a list \<Rightarrow> 'a list option" where
  "pack_scalar i_sourceArray i_indexes i_nIndex i_offset t o_destinationBuffer =
     (if tid t \<ge> i_nIndex then Some o_destinationBuffer
      else do {
        k \<leftarrow> add_int i_offset (tid t);
        j \<leftarrow> load i_indexes (tid t);
        v \<leftarrow> load i_sourceArray j;
        store o_destinationBuffer k v
      })"

text \<open>
  \<^verbatim>\<open>if (tid>=i_nIndex) return;
  o_destinationArray[i_indexes[tid]] = i_sourceBuffer[i_offset+tid];\<close>
\<close>

definition unpack_scalar ::
  "'a list \<Rightarrow> int list \<Rightarrow> int \<Rightarrow> int \<Rightarrow> thread \<Rightarrow> 'a list \<Rightarrow> 'a list option" where
  "unpack_scalar i_sourceBuffer i_indexes i_nIndex i_offset t o_destinationArray =
     (if tid t \<ge> i_nIndex then Some o_destinationArray
      else do {
        j \<leftarrow> load i_indexes (tid t);
        k \<leftarrow> add_int i_offset (tid t);
        v \<leftarrow> load i_sourceBuffer k;
        store o_destinationArray j v
      })"

subsection \<open>Vector kernels\<close>

text \<open>
  The two assignments every branch of the vector pack kernel is made of:
  \<^verbatim>\<open>o_destinationBuffer[i_offset+tid] = a[idx[p]]\<close> and
  \<^verbatim>\<open>o_destinationBuffer[i_offset+tid] = -1.0 * a[idx[p]]\<close>.
\<close>

definition pack_direct ::
  "'a list \<Rightarrow> int list \<Rightarrow> int \<Rightarrow> int \<Rightarrow> int \<Rightarrow> 'a list \<Rightarrow> 'a list option" where
  "pack_direct a idx p i_offset tid' o_destinationBuffer =
     do {
       k \<leftarrow> add_int i_offset tid';
       j \<leftarrow> load idx p;
       v \<leftarrow> load a j;
       store o_destinationBuffer k v
     }"

definition pack_negated ::
  "('a::ring_1) list \<Rightarrow> int list \<Rightarrow> int \<Rightarrow> int \<Rightarrow> int \<Rightarrow> 'a list \<Rightarrow> 'a list option" where
  "pack_negated a idx p i_offset tid' o_destinationBuffer =
     do {
       k \<leftarrow> add_int i_offset tid';
       j \<leftarrow> load idx p;
       v \<leftarrow> load a j;
       store o_destinationBuffer k (- 1 * v)
     }"

text \<open>
  The kernel (the Python source notes \<^verbatim>\<open>Expect rotate >= 0 in [0:4[\<close> and checks
  nothing):
  \<^verbatim>\<open>if (tid>=i_nIndexX+i_nIndexY) return;
  if (i_rotate == 0) {
      if (tid<i_nIndexX) o_destinationBuffer[i_offset+tid] = i_sourceArrayX[i_indexesX[tid]];
      else o_destinationBuffer[i_offset+tid] = i_sourceArrayY[i_indexesY[tid-i_nIndexX]];
  } else if (i_rotate == 1) {
      if (tid<i_nIndexY) o_destinationBuffer[i_offset+tid] = i_sourceArrayY[i_indexesY[tid]];
      else o_destinationBuffer[i_offset+tid] = -1.0 * i_sourceArrayX[i_indexesX[tid-i_nIndexY]];
  } else if (i_rotate == 2) {
      if (tid<i_nIndexX) o_destinationBuffer[i_offset+tid] = -1.0 * i_sourceArrayX[i_indexesX[tid]];
      else o_destinationBuffer[i_offset+tid] = -1.0 * i_sourceArrayY[i_indexesY[tid-i_nIndexX]];
  } else if (i_rotate == 3) {
      if (tid<i_nIndexY) o_destinationBuffer[i_offset+tid] = -1.0 * i_sourceArrayY[i_indexesY[tid]];
      else o_destinationBuffer[i_offset+tid] = i_sourceArrayX[i_indexesX[tid-i_nIndexY]];
  }\<close>
  There is no final \<^verbatim>\<open>else\<close>: with any other code the thread returns without a write.
\<close>

definition pack_vector ::
  "('a::ring_1) list \<Rightarrow> 'a list \<Rightarrow> int list \<Rightarrow> int list \<Rightarrow> int \<Rightarrow> int \<Rightarrow> int \<Rightarrow> int
     \<Rightarrow> thread \<Rightarrow> 'a list \<Rightarrow> 'a list option" where
  "pack_vector i_sourceArrayX i_sourceArrayY i_indexesX i_indexesY i_nIndexX i_nIndexY
       i_offset i_rotate t o_destinationBuffer =
     do {
       n \<leftarrow> add_int i_nIndexX i_nIndexY;
       if tid t \<ge> n then Some o_destinationBuffer
       else if i_rotate = 0 then
         (if tid t < i_nIndexX
          then pack_direct i_sourceArrayX i_indexesX (tid t) i_offset (tid t) o_destinationBuffer
          else do {
            p \<leftarrow> sub_int (tid t) i_nIndexX;
            pack_direct i_sourceArrayY i_indexesY p i_offset (tid t) o_destinationBuffer
          })
       else if i_rotate = 1 then
         (if tid t < i_nIndexY
          then pack_direct i_sourceArrayY i_indexesY (tid t) i_offset (tid t) o_destinationBuffer
          else do {
            p \<leftarrow> sub_int (tid t) i_nIndexY;
            pack_negated i_sourceArrayX i_indexesX p i_offset (tid t) o_destinationBuffer
          })
       else if i_rotate = 2 then
         (if tid t < i_nIndexX
          then pack_negated i_sourceArrayX i_indexesX (tid t) i_offset (tid t) o_destinationBuffer
          else do {
            p \<leftarrow> sub_int (tid t) i_nIndexX;
            pack_negated i_sourceArrayY i_indexesY p i_offset (tid t) o_destinationBuffer
          })
       else if i_rotate = 3 then
         (if tid t < i_nIndexY
          then pack_negated i_sourceArrayY i_indexesY (tid t) i_offset (tid t) o_destinationBuffer
          else do {
            p \<leftarrow> sub_int (tid t) i_nIndexY;
            pack_direct i_sourceArrayX i_indexesX p i_offset (tid t) o_destinationBuffer
          })
       else Some o_destinationBuffer
     }"

text \<open>
  \<^verbatim>\<open>if (tid<i_nIndexX)
      o_destinationArrayX[i_indexesX[tid]] = i_sourceBuffer[i_offset+tid];
  else if (tid<i_nIndexX+i_nIndexY)
      o_destinationArrayY[i_indexesY[tid-i_nIndexX]] = i_sourceBuffer[i_offset+tid];\<close>
  The state is the pair of the two destination arrays.
\<close>

definition unpack_vector ::
  "'a list \<Rightarrow> int list \<Rightarrow> int list \<Rightarrow> int \<Rightarrow> int \<Rightarrow> int \<Rightarrow> thread
     \<Rightarrow> 'a list \<times> 'a list \<Rightarrow> ('a list \<times> 'a list) option" where
  "unpack_vector i_sourceBuffer i_indexesX i_indexesY i_nIndexX i_nIndexY i_offset t dest =
     (case dest of (o_destinationArrayX, o_destinationArrayY) \<Rightarrow>
        if tid t < i_nIndexX then do {
          j \<leftarrow> load i_indexesX (tid t);
          k \<leftarrow> add_int i_offset (tid t);
          v \<leftarrow> load i_sourceBuffer k;
          x \<leftarrow> store o_destinationArrayX j v;
          Some (x, o_destinationArrayY)
        }
        else do {
          n \<leftarrow> add_int i_nIndexX i_nIndexY;
          if tid t < n then do {
            p \<leftarrow> sub_int (tid t) i_nIndexX;
            j \<leftarrow> load i_indexesY p;
            k \<leftarrow> add_int i_offset (tid t);
            v \<leftarrow> load i_sourceBuffer k;
            y \<leftarrow> store o_destinationArrayY j v;
            Some (o_destinationArrayX, y)
          }
          else Some dest
        })"

section \<open>The caller's contract\<close>

text \<open>
  The kernels validate nothing but the thread identifier. What the callers owe them:
  an index list of the declared length whose values are positions of the array it
  indexes; a buffer range \<open>[off, off + n)\<close> that lies inside the buffer, with an end a
  C \<^verbatim>\<open>int\<close> can hold; and a launch in which no thread identifier has wrapped to a
  negative \<^verbatim>\<open>int\<close> and every unit of work in \<open>[0, n)\<close> has a thread.
\<close>

definition valid_indexes :: "int list \<Rightarrow> int \<Rightarrow> 'a list \<Rightarrow> bool" where
  "valid_indexes idx n a = (int (length idx) = n \<and> list_all (\<lambda>j. 0 \<le> j \<and> j < int (length a)) idx)"

definition valid_range :: "int \<Rightarrow> int \<Rightarrow> 'a list \<Rightarrow> bool" where
  "valid_range off n buf = (0 \<le> off \<and> 0 \<le> n \<and> off + n \<le> int (length buf) \<and> in_int (off + n))"

definition covers :: "thread list \<Rightarrow> int \<Rightarrow> bool" where
  "covers ts n = (list_all (\<lambda>t. 0 \<le> tid t) ts \<and> list_all (\<lambda>i. int i \<in> tid ` set ts) [0..<nat n])"

section \<open>What the spec says a pack leaves in the buffer\<close>

text \<open>
  These follow the words of the spec, to be compared with the kernels: the values an
  index list selects from an array, a buffer with the range that starts at \<open>off\<close>
  replaced by such values, and the table of the rotation codes (first segment, then
  second segment).
\<close>

definition gather :: "'a list \<Rightarrow> int list \<Rightarrow> 'a list" where
  "gather a idx = map (\<lambda>j. a ! nat j) idx"

definition write_range :: "int \<Rightarrow> 'a list \<Rightarrow> 'a list \<Rightarrow> 'a list" where
  "write_range off vs buf = take (nat off) buf @ vs @ drop (nat off + length vs) buf"

definition rotation_table :: "int \<Rightarrow> ('a::ring_1) list \<Rightarrow> 'a list \<Rightarrow> 'a list" where
  "rotation_table code xs ys =
     (if code = 0 then xs @ ys
      else if code = 1 then ys @ map (\<lambda>v. - 1 * v) xs
      else if code = 2 then map (\<lambda>v. - 1 * v) xs @ map (\<lambda>v. - 1 * v) ys
      else if code = 3 then map (\<lambda>v. - 1 * v) ys @ xs
      else [])"

section \<open>The rotation of one vector\<close>

text \<open>
  The transform the vector pack kernel applies to a vector \<open>(x, y)\<close>: the kernel packs
  the one-element arrays \<open>[x]\<close> and \<open>[y]\<close> with a launch of two threads, and the two
  slots of the buffer are the components of the result.
\<close>

definition rotate_vector :: "int \<Rightarrow> ('a::ring_1) \<times> 'a \<Rightarrow> ('a \<times> 'a) option" where
  "rotate_vector code v =
     (case launch (pack_vector [fst v] [snd v] [0] [0] 1 1 0 code) (grid 1 2) [0, 0] of
        Some [a, b] \<Rightarrow> Some (a, b)
      | _ \<Rightarrow> None)"

section \<open>Threads beyond the declared count\<close>

text \<open>
  What it means for a kernel \<open>k\<close> to ignore the units of work from \<open>n\<close> on: a thread
  with an identifier \<open>\<ge> n\<close> returns the memory as it received it; in a launch of
  any threads in any order those threads can be left out; and a launch of a grid of
  at least \<open>n\<close> threads gives what a launch of a grid of exactly \<open>n\<close> threads gives.
  The grids have fewer than \<open>2 ^ 31\<close> threads: the identifier is an \<^verbatim>\<open>int\<close>, dense
  and zero-based only as long as it does not wrap.
\<close>

definition inert_beyond :: "(thread \<Rightarrow> 'm \<Rightarrow> 'm option) \<Rightarrow> int \<Rightarrow> bool" where
  "inert_beyond k n =
     ((\<forall>t m. n \<le> tid t \<longrightarrow> k t m = Some m) \<and>
      (\<forall>ts m. launch k ts m = launch k (filter (\<lambda>t. tid t < n) ts) m) \<and>
      (\<forall>g b g' b' m. int (g' * b') = n \<and> n \<le> int (g * b) \<and> g * b < 2 ^ 31 \<longrightarrow>
         launch k (grid g b) m = launch k (grid g' b') m))"

section \<open>Basic facts\<close>

text \<open>The equations that evaluate a kernel at a concrete input.\<close>

lemmas kernel_defs = pack_scalar_def unpack_scalar_def pack_vector_def unpack_vector_def
  pack_direct_def pack_negated_def add_int_def sub_int_def load_def store_def in_int_def
  tid_def grid_def valid_indexes_def valid_range_def covers_def upt_rec

lemma covers_nonneg: "covers ts n \<Longrightarrow> t \<in> set ts \<Longrightarrow> 0 \<le> tid t"
  by (simp add: covers_def list_all_iff)

lemma covers_mem: "covers ts n \<Longrightarrow> 0 \<le> i \<Longrightarrow> i < n \<Longrightarrow> i \<in> tid ` set ts"
proof -
  assume c: "covers ts n" and i: "0 \<le> i" "i < n"
  from i have "nat i \<in> set [0..<nat n]" by simp
  with c have "int (nat i) \<in> tid ` set ts" unfolding covers_def list_all_iff by blast
  with i show ?thesis by simp
qed

lemma add_int_Some: "in_int (a + b) \<Longrightarrow> add_int a b = Some (a + b)"
  by (simp add: add_int_def)

lemma sub_int_Some: "in_int (a - b) \<Longrightarrow> sub_int a b = Some (a - b)"
  by (simp add: sub_int_def)

lemma load_Some: "0 \<le> i \<Longrightarrow> i < int (length a) \<Longrightarrow> load a i = Some (a ! nat i)"
  by (simp add: load_def)

lemma store_Some: "0 \<le> i \<Longrightarrow> i < int (length a) \<Longrightarrow> store a i v = Some (a[nat i := v])"
  by (simp add: store_def)

lemma valid_indexes_nth:
  "valid_indexes idx n a \<Longrightarrow> 0 \<le> i \<Longrightarrow> i < n \<Longrightarrow> 0 \<le> idx ! nat i \<and> idx ! nat i < int (length a)"
  by (auto simp: valid_indexes_def list_all_length)

lemma launch_writes:
  assumes step: "\<And>t m. t \<in> set ts \<Longrightarrow> I m \<Longrightarrow>
      \<exists>m'. k t m = Some m' \<and> I m' \<and>
        (\<forall>a. rd m' a = (if act (tid t) \<and> pos (tid t) = a then val (tid t) else rd m a))"
    and cons: "\<And>i j. act i \<Longrightarrow> act j \<Longrightarrow> pos i = pos j \<Longrightarrow> val i = val j"
    and "I m"
  shows "\<exists>m'. launch k ts m = Some m' \<and> I m' \<and>
      (\<forall>i. act i \<longrightarrow> i \<in> tid ` set ts \<longrightarrow> rd m' (pos i) = val i) \<and>
      (\<forall>a. (\<forall>i. act i \<longrightarrow> i \<in> tid ` set ts \<longrightarrow> pos i \<noteq> a) \<longrightarrow> rd m' a = rd m a)"
  using step \<open>I m\<close>
proof (induction ts arbitrary: m)
  case Nil
  then show ?case by simp
next
  case (Cons t ts)
  from Cons.prems(1) [of t m] Cons.prems(2)
  obtain m1 where m1: "k t m = Some m1" "I m1"
    and rd1: "\<And>a. rd m1 a = (if act (tid t) \<and> pos (tid t) = a then val (tid t) else rd m a)"
    by auto
  have "\<exists>m'. launch k ts m1 = Some m' \<and> I m' \<and>
      (\<forall>i. act i \<longrightarrow> i \<in> tid ` set ts \<longrightarrow> rd m' (pos i) = val i) \<and>
      (\<forall>a. (\<forall>i. act i \<longrightarrow> i \<in> tid ` set ts \<longrightarrow> pos i \<noteq> a) \<longrightarrow> rd m' a = rd m1 a)"
    by (rule Cons.IH) (use Cons.prems(1) m1 in auto)
  then obtain m' where l: "launch k ts m1 = Some m'" "I m'"
    and hit: "\<And>i. act i \<Longrightarrow> i \<in> tid ` set ts \<Longrightarrow> rd m' (pos i) = val i"
    and miss: "\<And>a. (\<forall>i. act i \<longrightarrow> i \<in> tid ` set ts \<longrightarrow> pos i \<noteq> a) \<Longrightarrow> rd m' a = rd m1 a"
    by blast
  have "rd m' (pos i) = val i" if i: "act i" "i \<in> tid ` set (t # ts)" for i
  proof (cases "\<exists>j. act j \<and> j \<in> tid ` set ts \<and> pos j = pos i")
    case True
    then obtain j where j: "act j" "j \<in> tid ` set ts" "pos j = pos i" by blast
    from j(1,2) have "rd m' (pos j) = val j" by (rule hit)
    moreover from j i have "val j = val i" by (intro cons)
    ultimately show ?thesis using j(3) by simp
  next
    case False
    then have "rd m' (pos i) = rd m1 (pos i)" by (intro miss) blast
    moreover from False i have "i = tid t" by auto
    ultimately show ?thesis using rd1 i by simp
  qed
  moreover have "rd m' a = rd m a" if a: "\<forall>i. act i \<longrightarrow> i \<in> tid ` set (t # ts) \<longrightarrow> pos i \<noteq> a" for a
  proof -
    from a have "rd m' a = rd m1 a" by (intro miss) auto
    moreover from a have "\<not> (act (tid t) \<and> pos (tid t) = a)" by auto
    ultimately show ?thesis using rd1 by simp
  qed
  ultimately show ?case using m1 l by simp
qed

lemma launch_preserves:
  assumes "launch k ts m = Some m'" and "P m"
    and "\<And>t m m'. t \<in> set ts \<Longrightarrow> P m \<Longrightarrow> k t m = Some m' \<Longrightarrow> P m'"
  shows "P m'"
  using assms
proof (induction ts arbitrary: m)
  case Nil
  then show ?case by simp
next
  case (Cons t ts)
  from Cons.prems(1) obtain m1 where m1: "k t m = Some m1" "launch k ts m1 = Some m'"
    by (auto split: option.splits)
  from m1(1) Cons.prems(2) have "P m1" by (intro Cons.prems(3) [of t m m1]) auto
  with m1(2) show ?case by (rule Cons.IH) (use Cons.prems(3) in auto)
qed

lemma valid_range_cong: "length b = length b' \<Longrightarrow> valid_range off n b = valid_range off n b'"
  by (simp add: valid_range_def)

lemma valid_range_add:
  "valid_range off n b \<Longrightarrow> 0 \<le> i \<Longrightarrow> i < n \<Longrightarrow> in_int (off + i) \<and> 0 \<le> off + i \<and> off + i < int (length b)"
  by (auto simp: valid_range_def in_int_def)

lemma launch_range_writes:
  fixes dst :: "'a list"
  assumes step: "\<And>t m. t \<in> set ts \<Longrightarrow> 0 \<le> tid t \<Longrightarrow> length m = length dst \<Longrightarrow>
      k t m = Some (if tid t < n then m[nat (off + tid t) := val (tid t)] else m)"
    and range: "valid_range off n dst"
    and cov: "covers ts n"
  shows "launch k ts dst = Some (write_range off (map (\<lambda>i. val (int i)) [0..<nat n]) dst)"
proof -
  let ?act = "\<lambda>i. 0 \<le> i \<and> i < n"
  let ?pos = "\<lambda>i. nat (off + i)"
  have "\<exists>m'. launch k ts dst = Some m' \<and> length m' = length dst \<and>
      (\<forall>i. ?act i \<longrightarrow> i \<in> tid ` set ts \<longrightarrow> m' ! ?pos i = val i) \<and>
      (\<forall>a. (\<forall>i. ?act i \<longrightarrow> i \<in> tid ` set ts \<longrightarrow> ?pos i \<noteq> a) \<longrightarrow> m' ! a = dst ! a)"
  proof (rule launch_writes [where I = "\<lambda>m. length m = length dst" and rd = nth and act = ?act
        and pos = ?pos and val = val])
    fix t and m :: "'a list"
    assume t: "t \<in> set ts" and m: "length m = length dst"
    from cov t have nn: "0 \<le> tid t" by (rule covers_nonneg)
    show "\<exists>m'. k t m = Some m' \<and> length m' = length dst \<and>
        (\<forall>a. m' ! a = (if ?act (tid t) \<and> ?pos (tid t) = a then val (tid t) else m ! a))"
    proof (cases "tid t < n")
      case True
      with range nn have "nat (off + tid t) < length m"
        using valid_range_add [of off n dst "tid t"] m by auto
      with True nn m step [OF t nn m] show ?thesis by (auto simp: nth_list_update)
    next
      case False
      with step [OF t nn m] m show ?thesis by simp
    qed
  next
    fix i j
    assume "?act i" "?act j" "?pos i = ?pos j"
    with range have "i = j" by (auto simp: valid_range_def)
    then show "val i = val j" by simp
  qed simp
  then obtain m' where l: "launch k ts dst = Some m'" and len: "length m' = length dst"
    and hit: "\<And>i. ?act i \<Longrightarrow> i \<in> tid ` set ts \<Longrightarrow> m' ! ?pos i = val i"
    and miss: "\<And>a. (\<forall>i. ?act i \<longrightarrow> i \<in> tid ` set ts \<longrightarrow> ?pos i \<noteq> a) \<Longrightarrow> m' ! a = dst ! a"
    by blast
  let ?vs = "map (\<lambda>i. val (int i)) [0..<nat n]"
  from range have r: "0 \<le> off" "0 \<le> n" "nat off + nat n \<le> length dst"
    unfolding valid_range_def by linarith+
  have "m' = write_range off ?vs dst"
  proof (rule nth_equalityI)
    show "length m' = length (write_range off ?vs dst)"
      using len r by (simp add: write_range_def)
  next
    fix a
    assume "a < length m'"
    with len have a: "a < length dst" by simp
    show "m' ! a = write_range off ?vs dst ! a"
    proof (cases "nat off \<le> a \<and> a < nat off + nat n")
      case True
      define i where "i = int a - off"
      with True r have i: "0 \<le> i" "i < n" "?pos i = a" by auto
      with cov have "i \<in> tid ` set ts" by (intro covers_mem)
      with i have "m' ! ?pos i = val i" by (intro hit) simp
      with i have "m' ! a = val i" by simp
      moreover from True have "a - nat off < nat n" by linarith
      with True r a have "write_range off ?vs dst ! a = val (int (a - nat off))"
        by (simp add: write_range_def nth_append)
      moreover from True r have "int (a - nat off) = i" by (simp add: i_def)
      ultimately show ?thesis by simp
    next
      case False
      then have "\<forall>i. ?act i \<longrightarrow> i \<in> tid ` set ts \<longrightarrow> ?pos i \<noteq> a" using r by auto
      then have "m' ! a = dst ! a" by (rule miss)
      moreover from False r a have "write_range off ?vs dst ! a = dst ! a"
        by (auto simp: write_range_def nth_append min_def)
      ultimately show ?thesis by simp
    qed
  qed
  with l show ?thesis by simp
qed

lemma pack_direct_Some:
  assumes "valid_indexes idx n a" "0 \<le> p" "p < n" "in_int (off + i)" "0 \<le> off + i"
    "off + i < int (length m)"
  shows "pack_direct a idx p off i m = Some (m[nat (off + i) := a ! nat (idx ! nat p)])"
proof -
  from assms(1-3) have "load idx p = Some (idx ! nat p)"
    by (intro load_Some) (simp_all add: valid_indexes_def)
  moreover from assms(1-3) have "load a (idx ! nat p) = Some (a ! nat (idx ! nat p))"
    using valid_indexes_nth [of idx n a p] by (intro load_Some) simp_all
  ultimately show ?thesis
    using assms(4-6) by (simp add: pack_direct_def add_int_Some store_Some)
qed

lemma pack_negated_Some:
  assumes "valid_indexes idx n a" "0 \<le> p" "p < n" "in_int (off + i)" "0 \<le> off + i"
    "off + i < int (length m)"
  shows "pack_negated a idx p off i m = Some (m[nat (off + i) := - 1 * a ! nat (idx ! nat p)])"
proof -
  from assms(1-3) have "load idx p = Some (idx ! nat p)"
    by (intro load_Some) (simp_all add: valid_indexes_def)
  moreover from assms(1-3) have "load a (idx ! nat p) = Some (a ! nat (idx ! nat p))"
    using valid_indexes_nth [of idx n a p] by (intro load_Some) simp_all
  ultimately show ?thesis
    using assms(4-6) by (simp add: pack_negated_def add_int_Some store_Some)
qed

lemma pack_scalar_idle: "n \<le> tid t \<Longrightarrow> pack_scalar src idx n off t m = Some m"
  by (simp add: pack_scalar_def)

lemma pack_scalar_pack_direct:
  "tid t < n \<Longrightarrow> pack_scalar src idx n off t m = pack_direct src idx (tid t) off (tid t) m"
  by (simp add: pack_scalar_def pack_direct_def)

lemma pack_scalar_active:
  assumes "valid_indexes idx n src" "valid_range off n m" "0 \<le> tid t" "tid t < n"
  shows "pack_scalar src idx n off t m = Some (m[nat (off + tid t) := src ! nat (idx ! nat (tid t))])"
  using assms valid_range_add [of off n m "tid t"]
  by (simp add: pack_scalar_pack_direct pack_direct_Some)

lemma gather_upt: "int (length idx) = n \<Longrightarrow> map (\<lambda>i. a ! nat (idx ! i)) [0..<nat n] = gather a idx"
  by (auto simp: gather_def intro!: nth_equalityI)

lemma launch_pack_scalar:
  assumes "valid_indexes idx n src" "valid_range off n dst" "covers ts n"
  shows "launch (pack_scalar src idx n off) ts dst = Some (write_range off (gather src idx) dst)"
proof -
  have "launch (pack_scalar src idx n off) ts dst =
      Some (write_range off (map (\<lambda>i. src ! nat (idx ! nat (int i))) [0..<nat n]) dst)"
  proof (rule launch_range_writes [OF _ assms(2,3)])
    fix t and m :: "'a list"
    assume "0 \<le> tid t" "length m = length dst"
    with assms(1,2) show "pack_scalar src idx n off t m =
        Some (if tid t < n then m[nat (off + tid t) := src ! nat (idx ! nat (tid t))] else m)"
      using valid_range_cong [of m dst off n]
      by (simp add: pack_scalar_active pack_scalar_idle)
  qed
  with assms(1) show ?thesis by (simp add: gather_upt valid_indexes_def)
qed

section \<open>Scalar pack\<close>

text \<open>
  C2. Scalar pack, for an index list of length \<open>n\<close> with valid values and a range
  \<open>[off, off + n)\<close> inside the buffer: the thread with identifier \<open>i\<close> in \<open>[0, n)\<close> copies
  \<open>source[index[i]]\<close> into \<open>destination[offset + i]\<close>; a thread with an identifier
  \<open>\<ge> n\<close> leaves the buffer as it is, whatever the arrays are (it reads none of them);
  and after a launch that covers \<open>[0, n)\<close> every \<open>destination[offset + i]\<close> holds
  \<open>source[index[i]]\<close>.
\<close>

theorem pack_scalar_contract:
  assumes "valid_indexes idx n src" and "valid_range off n dst"
  shows "(\<forall>t. 0 \<le> tid t \<and> tid t < n \<longrightarrow>
            pack_scalar src idx n off t dst =
              Some (dst[nat (off + tid t) := src ! nat (idx ! nat (tid t))])) \<and>
         (\<forall>t src' idx' off' dst'. n \<le> tid t \<longrightarrow>
            pack_scalar src' idx' n off' t dst' = Some (dst' :: 'a list)) \<and>
         (\<forall>ts. covers ts n \<longrightarrow>
            (\<exists>dst'. launch (pack_scalar src idx n off) ts dst = Some dst' \<and>
               length dst' = length dst \<and>
               (\<forall>i < length idx. dst' ! (nat off + i) = src ! nat (idx ! i))))"
proof (intro conjI allI impI)
  fix t
  assume "0 \<le> tid t \<and> tid t < n"
  with assms show "pack_scalar src idx n off t dst =
      Some (dst[nat (off + tid t) := src ! nat (idx ! nat (tid t))])"
    by (simp add: pack_scalar_active)
next
  fix t src' idx' off' and dst' :: "'a list"
  assume "n \<le> tid t"
  then show "pack_scalar src' idx' n off' t dst' = Some dst'"
    by (rule pack_scalar_idle)
next
  fix ts
  assume "covers ts n"
  with assms have l: "launch (pack_scalar src idx n off) ts dst =
      Some (write_range off (gather src idx) dst)"
    by (rule launch_pack_scalar)
  from assms have r: "0 \<le> off" "nat off + length idx \<le> length dst"
    by (auto simp: valid_range_def valid_indexes_def)
  then have "length (write_range off (gather src idx) dst) = length dst"
    by (simp add: write_range_def gather_def)
  moreover from r have "\<forall>i < length idx.
      write_range off (gather src idx) dst ! (nat off + i) = src ! nat (idx ! i)"
    by (simp add: write_range_def gather_def nth_append)
  ultimately show "\<exists>dst'. launch (pack_scalar src idx n off) ts dst = Some dst' \<and>
      length dst' = length dst \<and> (\<forall>i < length idx. dst' ! (nat off + i) = src ! nat (idx ! i))"
    using l by simp
qed

theorem pack_scalar_contract_witness:
  "valid_indexes [2, 0] 2 [10, 20, 30 :: int] \<and> valid_range 1 2 [0, 0, 0, 0 :: int] \<and>
   covers (grid 2 2) 2 \<and>
   launch (pack_scalar [10, 20, 30] [2, 0] 2 1) (grid 2 2) [0, 0, 0, 0 :: int] = Some [0, 30, 10, 0]"
  using pack_scalar_contract [of "[2, 0]" 2 "[10, 20, 30 :: int]" 1 "[0, 0, 0, 0]"]
  by (simp add: kernel_defs)

section \<open>Vector pack\<close>

lemma two_segments:
  assumes "int (length idx1) = n1" and "int (length idx2) = n2"
  shows "map (\<lambda>i. if int i < n1 then f (a ! nat (idx1 ! nat (int i)))
                   else g (b ! nat (idx2 ! nat (int i - n1)))) [0..<nat (n1 + n2)] =
         map f (gather a idx1) @ map g (gather b idx2)"
proof (rule nth_equalityI)
  from assms show "length (map (\<lambda>i. if int i < n1 then f (a ! nat (idx1 ! nat (int i)))
                   else g (b ! nat (idx2 ! nat (int i - n1)))) [0..<nat (n1 + n2)]) =
         length (map f (gather a idx1) @ map g (gather b idx2))"
    by (auto simp: gather_def)
next
  fix i
  assume "i < length (map (\<lambda>i. if int i < n1 then f (a ! nat (idx1 ! nat (int i)))
                   else g (b ! nat (idx2 ! nat (int i - n1)))) [0..<nat (n1 + n2)])"
  with assms have i: "i < length idx1 + length idx2" by auto
  show "map (\<lambda>i. if int i < n1 then f (a ! nat (idx1 ! nat (int i)))
                   else g (b ! nat (idx2 ! nat (int i - n1)))) [0..<nat (n1 + n2)] ! i =
         (map f (gather a idx1) @ map g (gather b idx2)) ! i"
  proof (cases "i < length idx1")
    case True
    with assms i show ?thesis by (auto simp: gather_def nth_append)
  next
    case False
    with assms i have "nat (int i - n1) = i - length idx1" "i - length idx1 < length idx2"
      by auto
    with False assms i show ?thesis by (auto simp: gather_def nth_append)
  qed
qed

text \<open>What a thread of the vector pack kernel does, for each rotation code.\<close>

lemma pack_vector_idle:
  "in_int (nX + nY) \<Longrightarrow> nX + nY \<le> tid t \<Longrightarrow> pack_vector X Y iX iY nX nY off rot t m = Some m"
  by (simp add: pack_vector_def add_int_Some)

lemma pack_vector_other:
  "in_int (nX + nY) \<Longrightarrow> rot \<noteq> 0 \<Longrightarrow> rot \<noteq> 1 \<Longrightarrow> rot \<noteq> 2 \<Longrightarrow> rot \<noteq> 3 \<Longrightarrow>
   pack_vector X Y iX iY nX nY off rot t m = Some m"
  by (simp add: pack_vector_def add_int_Some)

lemma valid_range_total: "valid_range off (nX + nY) m \<Longrightarrow> 0 \<le> nX \<Longrightarrow> 0 \<le> nY \<Longrightarrow> in_int (nX + nY)"
  by (auto simp: valid_range_def in_int_def)

lemma valid_indexes_nonneg: "valid_indexes idx n a \<Longrightarrow> 0 \<le> n"
  by (auto simp: valid_indexes_def)

lemma pack_vector_first:
  assumes "valid_indexes iX nX X" "valid_indexes iY nY Y" "valid_range off (nX + nY) m"
    and "0 \<le> tid t"
  shows "tid t < nX \<Longrightarrow> pack_vector X Y iX iY nX nY off 0 t m =
           Some (m[nat (off + tid t) := X ! nat (iX ! nat (tid t))])"
    and "tid t < nY \<Longrightarrow> pack_vector X Y iX iY nX nY off 1 t m =
           Some (m[nat (off + tid t) := Y ! nat (iY ! nat (tid t))])"
    and "tid t < nX \<Longrightarrow> pack_vector X Y iX iY nX nY off 2 t m =
           Some (m[nat (off + tid t) := - 1 * X ! nat (iX ! nat (tid t))])"
    and "tid t < nY \<Longrightarrow> pack_vector X Y iX iY nX nY off 3 t m =
           Some (m[nat (off + tid t) := - 1 * Y ! nat (iY ! nat (tid t))])"
proof -
  from assms have n: "0 \<le> nX" "0 \<le> nY" "in_int (nX + nY)"
    by (auto dest: valid_indexes_nonneg valid_range_total)
  {
    assume "tid t < nX"
    with n assms have "tid t < nX + nY" "in_int (off + tid t)" "0 \<le> off + tid t"
      "off + tid t < int (length m)"
      using valid_range_add [of off "nX + nY" m "tid t"] by auto
  } note x = this
  {
    assume "tid t < nY"
    with n assms have "tid t < nX + nY" "in_int (off + tid t)" "0 \<le> off + tid t"
      "off + tid t < int (length m)"
      using valid_range_add [of off "nX + nY" m "tid t"] by auto
  } note y = this
  show "tid t < nX \<Longrightarrow> pack_vector X Y iX iY nX nY off 0 t m =
           Some (m[nat (off + tid t) := X ! nat (iX ! nat (tid t))])"
    using x n assms(1,4) by (simp add: pack_vector_def add_int_Some pack_direct_Some)
  show "tid t < nY \<Longrightarrow> pack_vector X Y iX iY nX nY off 1 t m =
           Some (m[nat (off + tid t) := Y ! nat (iY ! nat (tid t))])"
    using y n assms(2,4) by (simp add: pack_vector_def add_int_Some pack_direct_Some)
  show "tid t < nX \<Longrightarrow> pack_vector X Y iX iY nX nY off 2 t m =
           Some (m[nat (off + tid t) := - 1 * X ! nat (iX ! nat (tid t))])"
    using x n assms(1,4) by (simp add: pack_vector_def add_int_Some pack_negated_Some)
  show "tid t < nY \<Longrightarrow> pack_vector X Y iX iY nX nY off 3 t m =
           Some (m[nat (off + tid t) := - 1 * Y ! nat (iY ! nat (tid t))])"
    using y n assms(2,4) by (simp add: pack_vector_def add_int_Some pack_negated_Some)
qed

lemma pack_vector_second:
  assumes "valid_indexes iX nX X" "valid_indexes iY nY Y" "valid_range off (nX + nY) m"
    and "tid t < nX + nY"
  shows "nX \<le> tid t \<Longrightarrow> pack_vector X Y iX iY nX nY off 0 t m =
           Some (m[nat (off + tid t) := Y ! nat (iY ! nat (tid t - nX))])"
    and "nY \<le> tid t \<Longrightarrow> pack_vector X Y iX iY nX nY off 1 t m =
           Some (m[nat (off + tid t) := - 1 * X ! nat (iX ! nat (tid t - nY))])"
    and "nX \<le> tid t \<Longrightarrow> pack_vector X Y iX iY nX nY off 2 t m =
           Some (m[nat (off + tid t) := - 1 * Y ! nat (iY ! nat (tid t - nX))])"
    and "nY \<le> tid t \<Longrightarrow> pack_vector X Y iX iY nX nY off 3 t m =
           Some (m[nat (off + tid t) := X ! nat (iX ! nat (tid t - nY))])"
proof -
  from assms have n: "0 \<le> nX" "0 \<le> nY" "in_int (nX + nY)"
    by (auto dest: valid_indexes_nonneg valid_range_total)
  {
    assume "nX \<le> tid t"
    with n assms have "in_int (off + tid t)" "0 \<le> off + tid t" "off + tid t < int (length m)"
      "in_int (tid t - nX)" "0 \<le> tid t - nX" "tid t - nX < nY" "\<not> tid t < nX"
      using valid_range_add [of off "nX + nY" m "tid t"] by (auto simp: in_int_def)
  } note x = this
  {
    assume "nY \<le> tid t"
    with n assms have "in_int (off + tid t)" "0 \<le> off + tid t" "off + tid t < int (length m)"
      "in_int (tid t - nY)" "0 \<le> tid t - nY" "tid t - nY < nX" "\<not> tid t < nY"
      using valid_range_add [of off "nX + nY" m "tid t"] by (auto simp: in_int_def)
  } note y = this
  show "nX \<le> tid t \<Longrightarrow> pack_vector X Y iX iY nX nY off 0 t m =
           Some (m[nat (off + tid t) := Y ! nat (iY ! nat (tid t - nX))])"
    using x n assms(2,4)
    by (simp add: pack_vector_def add_int_Some sub_int_Some pack_direct_Some)
  show "nY \<le> tid t \<Longrightarrow> pack_vector X Y iX iY nX nY off 1 t m =
           Some (m[nat (off + tid t) := - 1 * X ! nat (iX ! nat (tid t - nY))])"
    using y n assms(1,4)
    by (simp add: pack_vector_def add_int_Some sub_int_Some pack_negated_Some)
  show "nX \<le> tid t \<Longrightarrow> pack_vector X Y iX iY nX nY off 2 t m =
           Some (m[nat (off + tid t) := - 1 * Y ! nat (iY ! nat (tid t - nX))])"
    using x n assms(2,4)
    by (simp add: pack_vector_def add_int_Some sub_int_Some pack_negated_Some)
  show "nY \<le> tid t \<Longrightarrow> pack_vector X Y iX iY nX nY off 3 t m =
           Some (m[nat (off + tid t) := X ! nat (iX ! nat (tid t - nY))])"
    using y n assms(1,4)
    by (simp add: pack_vector_def add_int_Some sub_int_Some pack_direct_Some)
qed

lemma launch_two_segments:
  fixes dst :: "'a list"
  assumes first: "\<And>t m. 0 \<le> tid t \<Longrightarrow> tid t < n1 \<Longrightarrow> length m = length dst \<Longrightarrow>
      k t m = Some (m[nat (off + tid t) := f (a ! nat (idx1 ! nat (tid t)))])"
    and second: "\<And>t m. n1 \<le> tid t \<Longrightarrow> tid t < n1 + n2 \<Longrightarrow> length m = length dst \<Longrightarrow>
      k t m = Some (m[nat (off + tid t) := g (b ! nat (idx2 ! nat (tid t - n1)))])"
    and idle: "\<And>t m. n1 + n2 \<le> tid t \<Longrightarrow> k t m = Some m"
    and len: "int (length idx1) = n1" "int (length idx2) = n2"
    and range: "valid_range off (n1 + n2) dst"
    and cov: "covers ts (n1 + n2)"
  shows "launch k ts dst =
      Some (write_range off (map f (gather a idx1) @ map g (gather b idx2)) dst)"
proof -
  let ?val = "\<lambda>i. if i < n1 then f (a ! nat (idx1 ! nat i)) else g (b ! nat (idx2 ! nat (i - n1)))"
  have "launch k ts dst = Some (write_range off (map (\<lambda>i. ?val (int i)) [0..<nat (n1 + n2)]) dst)"
  proof (rule launch_range_writes [OF _ range cov])
    fix t and m :: "'a list"
    assume t: "0 \<le> tid t" "length m = length dst"
    show "k t m = Some (if tid t < n1 + n2 then m[nat (off + tid t) := ?val (tid t)] else m)"
    proof (cases "tid t < n1")
      case True
      with len have "tid t < n1 + n2" by simp
      with True t show ?thesis by (simp add: first)
    next
      case False
      with t show ?thesis by (cases "tid t < n1 + n2") (simp_all add: second idle)
    qed
  qed
  also have "map (\<lambda>i. ?val (int i)) [0..<nat (n1 + n2)] =
      map f (gather a idx1) @ map g (gather b idx2)"
    using len by (rule two_segments)
  finally show ?thesis .
qed

lemma launch_pack_vector:
  fixes X Y :: "('a::ring_1) list"
  assumes vX: "valid_indexes iX nX X" and vY: "valid_indexes iY nY Y"
    and range: "valid_range off (nX + nY) dst"
    and cov: "covers ts (nX + nY)"
    and rot: "rot = 0 \<or> rot = 1 \<or> rot = 2 \<or> rot = 3"
  shows "launch (pack_vector X Y iX iY nX nY off rot) ts dst =
      Some (write_range off (rotation_table rot (gather X iX) (gather Y iY)) dst)"
proof -
  from vX vY have len: "int (length iX) = nX" "int (length iY) = nY"
    by (simp_all add: valid_indexes_def)
  from vX vY range have n: "0 \<le> nX" "0 \<le> nY" "in_int (nX + nY)"
    by (auto dest: valid_indexes_nonneg valid_range_total)
  have r: "valid_range off (nX + nY) m" if "length m = length dst" for m :: "'a list"
    using that range valid_range_cong [of m dst off "nX + nY"] by simp
  from range have range': "valid_range off (nY + nX) dst" by (simp add: add.commute)
  from cov have cov': "covers ts (nY + nX)" by (simp add: add.commute)
  have idle: "pack_vector X Y iX iY nX nY off rot t m = Some m" if "nX + nY \<le> tid t"
    for t and m :: "'a list"
    using that n by (simp add: pack_vector_idle)
  have idle': "pack_vector X Y iX iY nX nY off rot t m = Some m" if "nY + nX \<le> tid t"
    for t and m :: "'a list"
    using that n by (simp add: pack_vector_idle add.commute)
  have neg: "(*) (- 1 :: 'a) = uminus" by (rule ext) simp
  from rot consider "rot = 0" | "rot = 1" | "rot = 2" | "rot = 3" by blast
  then show ?thesis
  proof cases
    case 1
    have "launch (pack_vector X Y iX iY nX nY off rot) ts dst =
        Some (write_range off (map (\<lambda>v. v) (gather X iX) @ map (\<lambda>v. v) (gather Y iY)) dst)"
      by (rule launch_two_segments [OF _ _ idle len range cov])
        (simp_all add: 1 pack_vector_first [OF vX vY r] pack_vector_second [OF vX vY r])
    with 1 show ?thesis by (simp add: rotation_table_def)
  next
    case 2
    have "launch (pack_vector X Y iX iY nX nY off rot) ts dst =
        Some (write_range off (map (\<lambda>v. v) (gather Y iY) @ map (\<lambda>v. - 1 * v) (gather X iX)) dst)"
      by (rule launch_two_segments [OF _ _ idle' len(2,1) range' cov'])
        (simp_all add: 2 add.commute pack_vector_first [OF vX vY r] pack_vector_second [OF vX vY r])
    with 2 show ?thesis by (simp add: rotation_table_def neg)
  next
    case 3
    have "launch (pack_vector X Y iX iY nX nY off rot) ts dst =
        Some (write_range off (map (\<lambda>v. - 1 * v) (gather X iX) @ map (\<lambda>v. - 1 * v) (gather Y iY)) dst)"
      by (rule launch_two_segments [OF _ _ idle len range cov])
        (simp_all add: 3 pack_vector_first [OF vX vY r] pack_vector_second [OF vX vY r])
    with 3 show ?thesis by (simp add: rotation_table_def neg)
  next
    case 4
    have "launch (pack_vector X Y iX iY nX nY off rot) ts dst =
        Some (write_range off (map (\<lambda>v. - 1 * v) (gather Y iY) @ map (\<lambda>v. v) (gather X iX)) dst)"
      by (rule launch_two_segments [OF _ _ idle' len(2,1) range' cov'])
        (simp_all add: 4 add.commute pack_vector_first [OF vX vY r] pack_vector_second [OF vX vY r])
    with 4 show ?thesis by (simp add: rotation_table_def neg)
  qed
qed

subsection \<open>The rotation table\<close>

text \<open>
  C1. Vector pack of \<open>x = [1, 2]\<close>, \<open>y = [3, 4]\<close> with \<open>indexX = indexY = [0, 1]\<close>,
  \<open>nX = nY = 2\<close> and offset 0 leaves \<open>[1, 2, 3, 4]\<close> in the buffer under rotation code
  0, \<open>[3, 4, -1, -2]\<close> under code 1, \<open>[-1, -2, -3, -4]\<close> under code 2 and
  \<open>[-3, -4, 1, 2]\<close> under code 3. In general, for valid index lists, a range inside the
  buffer and a launch that covers \<open>[0, nX + nY)\<close>, the range that starts at the offset
  holds the two segments of the rotation table: the values selected from x and y,
  in the order and with the signs of the code's row.
\<close>

theorem pack_vector_rotation:
  fixes X Y dst :: "('a::ring_1) list"
  shows
  "launch (pack_vector [1, 2] [3, 4] [0, 1] [0, 1] 2 2 0 0) (grid 1 4) [a, b, c, d] =
     Some [1, 2, 3, 4 :: 'a] \<and>
   launch (pack_vector [1, 2] [3, 4] [0, 1] [0, 1] 2 2 0 1) (grid 1 4) [a, b, c, d] =
     Some [3, 4, - 1, - 2 :: 'a] \<and>
   launch (pack_vector [1, 2] [3, 4] [0, 1] [0, 1] 2 2 0 2) (grid 1 4) [a, b, c, d] =
     Some [- 1, - 2, - 3, - 4 :: 'a] \<and>
   launch (pack_vector [1, 2] [3, 4] [0, 1] [0, 1] 2 2 0 3) (grid 1 4) [a, b, c, d] =
     Some [- 3, - 4, 1, 2 :: 'a] \<and>
   (valid_indexes iX nX X \<and> valid_indexes iY nY Y \<and> valid_range off (nX + nY) dst \<and>
    covers ts (nX + nY) \<and> (rot = 0 \<or> rot = 1 \<or> rot = 2 \<or> rot = 3) \<longrightarrow>
    launch (pack_vector X Y iX iY nX nY off rot) ts dst =
      Some (write_range off (rotation_table rot (gather X iX) (gather Y iY)) dst))"
proof (intro conjI impI)
  show "launch (pack_vector [1, 2] [3, 4] [0, 1] [0, 1] 2 2 0 0) (grid 1 4) [a, b, c, d] =
     Some [1, 2, 3, 4 :: 'a]"
    by (simp add: kernel_defs)
  show "launch (pack_vector [1, 2] [3, 4] [0, 1] [0, 1] 2 2 0 1) (grid 1 4) [a, b, c, d] =
     Some [3, 4, - 1, - 2 :: 'a]"
    by (simp add: kernel_defs)
  show "launch (pack_vector [1, 2] [3, 4] [0, 1] [0, 1] 2 2 0 2) (grid 1 4) [a, b, c, d] =
     Some [- 1, - 2, - 3, - 4 :: 'a]"
    by (simp add: kernel_defs)
  show "launch (pack_vector [1, 2] [3, 4] [0, 1] [0, 1] 2 2 0 3) (grid 1 4) [a, b, c, d] =
     Some [- 3, - 4, 1, 2 :: 'a]"
    by (simp add: kernel_defs)
next
  assume "valid_indexes iX nX X \<and> valid_indexes iY nY Y \<and> valid_range off (nX + nY) dst \<and>
    covers ts (nX + nY) \<and> (rot = 0 \<or> rot = 1 \<or> rot = 2 \<or> rot = 3)"
  then show "launch (pack_vector X Y iX iY nX nY off rot) ts dst =
      Some (write_range off (rotation_table rot (gather X iX) (gather Y iY)) dst)"
    by (intro launch_pack_vector) simp_all
qed

theorem pack_vector_rotation_witness:
  "valid_indexes [2, 0] 2 [5, 6, 7 :: int] \<and> valid_indexes [1] 1 [8, 9 :: int] \<and>
   valid_range 1 (2 + 1) [0, 0, 0, 0, 0 :: int] \<and> covers (grid 2 2) (2 + 1) \<and>
   launch (pack_vector [5, 6, 7] [8, 9] [2, 0] [1] 2 1 1 3) (grid 2 2) [0, 0, 0, 0, 0 :: int] =
     Some (write_range 1 (rotation_table 3 (gather [5, 6, 7] [2, 0]) (gather [8, 9] [1]))
       [0, 0, 0, 0, 0]) \<and>
   write_range 1 (rotation_table 3 (gather [5, 6, 7] [2, 0]) (gather [8, 9] [1]))
       [0, 0, 0, 0, 0 :: int] = [0, - 9, 7, 5, 0]"
  using pack_vector_rotation [where iX = "[2, 0]" and nX = 2 and X = "[5, 6, 7 :: int]"
      and iY = "[1]" and nY = 1 and Y = "[8, 9]" and off = 1 and dst = "[0, 0, 0, 0, 0]"
      and ts = "grid 2 2" and rot = 3]
  by (simp add: kernel_defs write_range_def rotation_table_def gather_def)

subsection \<open>Rotation codes outside the table\<close>

lemma launch_idle: "(\<And>t m. t \<in> set ts \<Longrightarrow> k t m = Some m) \<Longrightarrow> launch k ts m = Some m"
  by (induction ts) simp_all

text \<open>
  C10. With a rotation code other than 0, 1, 2 and 3, no thread of the vector pack
  kernel writes: a thread, and so a launch of any threads, returns the buffer as it
  received it. (The kernel first adds the two counts; the only other outcome is the
  undefined behaviour of that addition when the sum is no \<^verbatim>\<open>int\<close>.)
\<close>

theorem pack_vector_unknown_rotation:
  assumes "rot \<noteq> 0" "rot \<noteq> 1" "rot \<noteq> 2" "rot \<noteq> 3"
  shows "pack_vector X Y iX iY nX nY off rot t dst = (if in_int (nX + nY) then Some dst else None) \<and>
         launch (pack_vector X Y iX iY nX nY off rot) ts dst =
           (if in_int (nX + nY) \<or> ts = [] then Some dst else None)"
proof
  from assms show thread: "pack_vector X Y iX iY nX nY off rot t dst =
      (if in_int (nX + nY) then Some dst else None)" for t dst
    by (simp add: pack_vector_def add_int_def)
  show "launch (pack_vector X Y iX iY nX nY off rot) ts dst =
      (if in_int (nX + nY) \<or> ts = [] then Some dst else None)"
    by (cases ts) (simp_all add: thread launch_idle)
qed

theorem pack_vector_unknown_rotation_witness:
  "(4 :: int) \<noteq> 0 \<and> (4 :: int) \<noteq> 1 \<and> (4 :: int) \<noteq> 2 \<and> (4 :: int) \<noteq> 3 \<and>
   launch (pack_vector [1, 2] [3, 4] [0, 1] [0, 1] 2 2 0 4) (grid 1 4) [7, 7, 7, 7 :: int] =
     Some [7, 7, 7, 7] \<and>
   launch (pack_vector [1, 2] [3, 4] [0, 1] [0, 1] 2 2 0 (- 1)) (grid 1 4) [7, 7, 7, 7 :: int] =
     Some [7, 7, 7, 7]"
  using pack_vector_unknown_rotation [where rot = 4 and X = "[1, 2 :: int]" and Y = "[3, 4]"
      and iX = "[0, 1]" and iY = "[0, 1]" and nX = 2 and nY = 2 and off = 0
      and ts = "grid 1 4" and dst = "[7, 7, 7, 7]"]
    pack_vector_unknown_rotation [where rot = "- 1" and X = "[1, 2 :: int]" and Y = "[3, 4]"
      and iX = "[0, 1]" and iY = "[0, 1]" and nX = 2 and nY = 2 and off = 0
      and ts = "grid 1 4" and dst = "[7, 7, 7, 7]"]
  by (simp add: in_int_def grid_def)

subsection \<open>The split of the output range\<close>

text \<open>
  C6. Where the output range splits depends on the rotation code. Under codes 0 and 2
  a thread with an identifier below \<open>nX\<close> does the same whatever the Y array and the
  Y index list are, and a thread with an identifier from \<open>nX\<close> on does the same
  whatever the X array and the X index list are; under codes 1 and 3 a thread below
  \<open>nY\<close> does not depend on the X array and index list, and a thread from \<open>nY\<close> on
  does not depend on the Y array and index list. After a covering launch with valid
  index lists the first \<open>nX\<close> (codes 0, 2) or \<open>nY\<close> (codes 1, 3) slots of the range
  are the values selected from x (from y), with the sign of the code, and the
  remaining slots those selected from the other array.
\<close>

theorem pack_vector_segment_split:
  fixes X Y X' Y' dst :: "('a::ring_1) list"
  shows
  "(rot = 0 \<or> rot = 2 \<longrightarrow>
      (tid t < nX \<longrightarrow> pack_vector X Y iX iY nX nY off rot t dst =
                       pack_vector X Y' iX iY' nX nY off rot t dst) \<and>
      (nX \<le> tid t \<longrightarrow> pack_vector X Y iX iY nX nY off rot t dst =
                       pack_vector X' Y iX' iY nX nY off rot t dst)) \<and>
   (rot = 1 \<or> rot = 3 \<longrightarrow>
      (tid t < nY \<longrightarrow> pack_vector X Y iX iY nX nY off rot t dst =
                       pack_vector X' Y iX' iY nX nY off rot t dst) \<and>
      (nY \<le> tid t \<longrightarrow> pack_vector X Y iX iY nX nY off rot t dst =
                       pack_vector X Y' iX iY' nX nY off rot t dst)) \<and>
   (valid_indexes iX nX X \<and> valid_indexes iY nY Y \<and> valid_range off (nX + nY) dst \<and>
    covers ts (nX + nY) \<longrightarrow>
      (\<exists>dst'. launch (pack_vector X Y iX iY nX nY off rot) ts dst = Some dst' \<and>
         (rot = 0 \<longrightarrow> take (nat nX) (drop (nat off) dst') = gather X iX \<and>
                      take (nat nY) (drop (nat (off + nX)) dst') = gather Y iY) \<and>
         (rot = 2 \<longrightarrow> take (nat nX) (drop (nat off) dst') = map uminus (gather X iX) \<and>
                      take (nat nY) (drop (nat (off + nX)) dst') = map uminus (gather Y iY)) \<and>
         (rot = 1 \<longrightarrow> take (nat nY) (drop (nat off) dst') = gather Y iY \<and>
                      take (nat nX) (drop (nat (off + nY)) dst') = map uminus (gather X iX)) \<and>
         (rot = 3 \<longrightarrow> take (nat nY) (drop (nat off) dst') = map uminus (gather Y iY) \<and>
                      take (nat nX) (drop (nat (off + nY)) dst') = gather X iX)))"
proof (intro conjI impI)
  assume "rot = 0 \<or> rot = 2" "tid t < nX"
  then show "pack_vector X Y iX iY nX nY off rot t dst = pack_vector X Y' iX iY' nX nY off rot t dst"
    by (auto simp: pack_vector_def)
next
  assume "rot = 0 \<or> rot = 2" "nX \<le> tid t"
  then show "pack_vector X Y iX iY nX nY off rot t dst = pack_vector X' Y iX' iY nX nY off rot t dst"
    by (auto simp: pack_vector_def)
next
  assume "rot = 1 \<or> rot = 3" "tid t < nY"
  then show "pack_vector X Y iX iY nX nY off rot t dst = pack_vector X' Y iX' iY nX nY off rot t dst"
    by (auto simp: pack_vector_def)
next
  assume "rot = 1 \<or> rot = 3" "nY \<le> tid t"
  then show "pack_vector X Y iX iY nX nY off rot t dst = pack_vector X Y' iX iY' nX nY off rot t dst"
    by (auto simp: pack_vector_def)
next
  assume a: "valid_indexes iX nX X \<and> valid_indexes iY nY Y \<and> valid_range off (nX + nY) dst \<and>
    covers ts (nX + nY)"
  then have len: "nat nX = length iX" "nat nY = length iY" "0 \<le> off" "0 \<le> nX" "0 \<le> nY"
    "nat off + (length iX + length iY) \<le> length dst"
    by (auto simp: valid_indexes_def valid_range_def)
  have neg: "(*) (- 1 :: 'a) = uminus" by (rule ext) simp
  have seg: "take (length vs) (drop (nat off) (write_range off (vs @ ws) dst)) = vs \<and>
      take (length ws) (drop (nat off + length vs) (write_range off (vs @ ws) dst)) = ws"
    if "nat off + (length vs + length ws) \<le> length dst" for vs ws :: "'a list"
    using that by (simp add: write_range_def)
  show "\<exists>dst'. launch (pack_vector X Y iX iY nX nY off rot) ts dst = Some dst' \<and>
         (rot = 0 \<longrightarrow> take (nat nX) (drop (nat off) dst') = gather X iX \<and>
                      take (nat nY) (drop (nat (off + nX)) dst') = gather Y iY) \<and>
         (rot = 2 \<longrightarrow> take (nat nX) (drop (nat off) dst') = map uminus (gather X iX) \<and>
                      take (nat nY) (drop (nat (off + nX)) dst') = map uminus (gather Y iY)) \<and>
         (rot = 1 \<longrightarrow> take (nat nY) (drop (nat off) dst') = gather Y iY \<and>
                      take (nat nX) (drop (nat (off + nY)) dst') = map uminus (gather X iX)) \<and>
         (rot = 3 \<longrightarrow> take (nat nY) (drop (nat off) dst') = map uminus (gather Y iY) \<and>
                      take (nat nX) (drop (nat (off + nY)) dst') = gather X iX)"
  proof (cases "rot = 0 \<or> rot = 1 \<or> rot = 2 \<or> rot = 3")
    case True
    with a have l: "launch (pack_vector X Y iX iY nX nY off rot) ts dst =
        Some (write_range off (rotation_table rot (gather X iX) (gather Y iY)) dst)"
      by (intro launch_pack_vector) simp_all
    have gl: "length (gather X iX) = length iX" "length (gather Y iY) = length iY"
      by (simp_all add: gather_def)
    from len have nat_add: "nat (off + nX) = nat off + length iX" "nat (off + nY) = nat off + length iY"
      by linarith+
    from True consider "rot = 0" | "rot = 1" | "rot = 2" | "rot = 3" by blast
    then show ?thesis
    proof cases
      case 1
      with l len nat_add gl seg [of "gather X iX" "gather Y iY"] show ?thesis
        by (simp add: rotation_table_def)
    next
      case 2
      with l len nat_add gl seg [of "gather Y iY" "map uminus (gather X iX)"] show ?thesis
        by (simp add: rotation_table_def neg add.commute)
    next
      case 3
      with l len nat_add gl seg [of "map uminus (gather X iX)" "map uminus (gather Y iY)"]
      show ?thesis
        by (simp add: rotation_table_def neg)
    next
      case 4
      with l len nat_add gl seg [of "map uminus (gather Y iY)" "gather X iX"] show ?thesis
        by (simp add: rotation_table_def neg add.commute)
    qed
  next
    case False
    with a have "launch (pack_vector X Y iX iY nX nY off rot) ts dst = Some dst"
      by (intro launch_idle) (auto simp: pack_vector_other dest: valid_indexes_nonneg valid_range_total)
    with False show ?thesis by simp
  qed
qed

theorem pack_vector_segment_split_witness:
  "((2 :: int) = 0 \<or> (2 :: int) = 2) \<and>
   tid \<lparr>blockDim_x = 3, blockIdx_x = 0, threadIdx_x = 1\<rparr> < 2 \<and>
   pack_vector [5, 6] [9] [1, 0] [0] 2 1 0 2
       \<lparr>blockDim_x = 3, blockIdx_x = 0, threadIdx_x = 1\<rparr> [0, 0, 0 :: int] =
     pack_vector [5, 6] [] [1, 0] [] 2 1 0 2
       \<lparr>blockDim_x = 3, blockIdx_x = 0, threadIdx_x = 1\<rparr> [0, 0, 0] \<and>
   2 \<le> tid \<lparr>blockDim_x = 3, blockIdx_x = 0, threadIdx_x = 2\<rparr> \<and>
   pack_vector [5, 6] [9] [1, 0] [0] 2 1 0 2
       \<lparr>blockDim_x = 3, blockIdx_x = 0, threadIdx_x = 2\<rparr> [0, 0, 0 :: int] =
     pack_vector [] [9] [] [0] 2 1 0 2
       \<lparr>blockDim_x = 3, blockIdx_x = 0, threadIdx_x = 2\<rparr> [0, 0, 0] \<and>
   valid_indexes [1, 0] 2 [5, 6 :: int] \<and> valid_indexes [0] 1 [9 :: int] \<and>
   valid_range 0 (2 + 1) [0, 0, 0 :: int] \<and> covers (grid 1 3) (2 + 1) \<and>
   (\<exists>dst'. launch (pack_vector [5, 6] [9] [1, 0] [0] 2 1 0 2) (grid 1 3) [0, 0, 0 :: int] = Some dst' \<and>
      take (nat 2) (drop (nat 0) dst') = map uminus (gather [5, 6] [1, 0]) \<and>
      take (nat 1) (drop (nat (0 + 2)) dst') = map uminus (gather [9] [0]))"
  using pack_vector_segment_split [where rot = 2 and X = "[5, 6 :: int]" and Y = "[9]"
      and iX = "[1, 0]" and iY = "[0]" and nX = 2 and nY = 1 and off = 0 and dst = "[0, 0, 0]"
      and ts = "grid 1 3" and t = "\<lparr>blockDim_x = 3, blockIdx_x = 0, threadIdx_x = 1\<rparr>"
      and Y' = "[]" and iY' = "[]"]
    pack_vector_segment_split [where rot = 2 and X = "[5, 6 :: int]" and Y = "[9]"
      and iX = "[1, 0]" and iY = "[0]" and nX = 2 and nY = 1 and off = 0 and dst = "[0, 0, 0]"
      and ts = "grid 1 3" and t = "\<lparr>blockDim_x = 3, blockIdx_x = 0, threadIdx_x = 2\<rparr>"
      and X' = "[]" and iX' = "[]"]
  by (simp add: kernel_defs gather_def)

subsection \<open>Rotations that undo each other\<close>

text \<open>
  C8. As the pack kernel maps them, rotation code 1 sends \<open>(x, y)\<close> to \<open>(y, -x)\<close>,
  code 3 sends it to \<open>(-y, x)\<close> and code 2 to \<open>(-x, -y)\<close>; code 1 followed by code 3,
  code 3 followed by code 1, and code 2 followed by itself give every vector back.
\<close>

theorem rotation_inverse_pairing:
  fixes x y :: "'a::ring_1"
  shows "rotate_vector 1 (x, y) = Some (y, - x) \<and>
         rotate_vector 3 (x, y) = Some (- y, x) \<and>
         rotate_vector 2 (x, y) = Some (- x, - y) \<and>
         Option.bind (rotate_vector 1 (x, y)) (rotate_vector 3) = Some (x, y) \<and>
         Option.bind (rotate_vector 3 (x, y)) (rotate_vector 1) = Some (x, y) \<and>
         Option.bind (rotate_vector 2 (x, y)) (rotate_vector 2) = Some (x, y)"
proof -
  have r1: "rotate_vector 1 (a, b) = Some (b, - a)" for a b :: 'a
    by (simp add: rotate_vector_def kernel_defs)
  have r2: "rotate_vector 2 (a, b) = Some (- a, - b)" for a b :: 'a
    by (simp add: rotate_vector_def kernel_defs)
  have r3: "rotate_vector 3 (a, b) = Some (- b, a)" for a b :: 'a
    by (simp add: rotate_vector_def kernel_defs)
  show ?thesis by (simp add: r1 r2 r3)
qed

section \<open>Frame of the pack kernels\<close>

lemma length_write_range:
  "nat off + length vs \<le> length buf \<Longrightarrow> length (write_range off vs buf) = length buf"
  by (simp add: write_range_def)

lemma nth_write_range:
  "nat off + length vs \<le> length buf \<Longrightarrow> k < length buf \<Longrightarrow>
   write_range off vs buf ! k =
     (if nat off \<le> k \<and> k < nat off + length vs then vs ! (k - nat off) else buf ! k)"
  by (auto simp: write_range_def nth_append min_def)

lemma segment_write_range:
  assumes "nat off + length vs \<le> length buf"
  shows "take (length vs) (drop (nat off) (write_range off vs buf)) = vs"
  using assms by (simp add: write_range_def)

lemma write_range_disjoint:
  assumes l1: "nat o1 + length v1 \<le> length buf" and l2: "nat o2 + length v2 \<le> length buf"
    and d: "nat o1 + length v1 \<le> nat o2 \<or> nat o2 + length v2 \<le> nat o1"
  shows "take (length v1) (drop (nat o1) (write_range o2 v2 (write_range o1 v1 buf))) = v1"
proof (rule nth_equalityI)
  from l1 l2 show "length (take (length v1) (drop (nat o1) (write_range o2 v2 (write_range o1 v1 buf)))) = length v1"
    by (simp add: length_write_range)
next
  fix i
  assume "i < length (take (length v1) (drop (nat o1) (write_range o2 v2 (write_range o1 v1 buf))))"
  then have i: "i < length v1" by simp
  with l1 l2 have "take (length v1) (drop (nat o1) (write_range o2 v2 (write_range o1 v1 buf))) ! i =
      write_range o2 v2 (write_range o1 v1 buf) ! (nat o1 + i)"
    by (simp add: length_write_range)
  also from i l1 l2 d have "\<dots> = write_range o1 v1 buf ! (nat o1 + i)"
    by (subst nth_write_range) (auto simp: length_write_range)
  also from i l1 have "\<dots> = v1 ! i"
    by (subst nth_write_range) auto
  finally show "take (length v1) (drop (nat o1) (write_range o2 v2 (write_range o1 v1 buf))) ! i = v1 ! i" .
qed

lemma store_frame:
  "store m k v = Some m' \<Longrightarrow> 0 \<le> k \<and> length m' = length m \<and> (\<forall>j. j \<noteq> nat k \<longrightarrow> m' ! j = m ! j)"
  by (auto simp: store_def split: if_splits)

lemma load_nonneg: "load a i = Some v \<Longrightarrow> 0 \<le> i"
  by (simp add: load_def split: if_splits)

lemma pack_direct_frame:
  assumes "pack_direct a idx p off i m = Some m'"
  shows "0 \<le> p \<and> 0 \<le> off + i \<and> length m' = length m \<and> (\<forall>j. j \<noteq> nat (off + i) \<longrightarrow> m' ! j = m ! j)"
  using assms
  by (auto simp: pack_direct_def add_int_def split: bind_splits if_splits
      dest!: store_frame load_nonneg)

lemma pack_negated_frame:
  assumes "pack_negated a idx p off i m = Some m'"
  shows "0 \<le> p \<and> 0 \<le> off + i \<and> length m' = length m \<and> (\<forall>j. j \<noteq> nat (off + i) \<longrightarrow> m' ! j = m ! j)"
  using assms
  by (auto simp: pack_negated_def add_int_def split: bind_splits if_splits
      dest!: store_frame load_nonneg)

lemma outside_range:
  "\<not> (off \<le> int k \<and> int k < off + n) \<Longrightarrow> 0 \<le> i \<Longrightarrow> i < n \<Longrightarrow> 0 \<le> off + i \<Longrightarrow> k \<noteq> nat (off + i)"
proof
  assume a: "\<not> (off \<le> int k \<and> int k < off + n)" "0 \<le> i" "i < n" "0 \<le> off + i"
    and "k = nat (off + i)"
  then have "int k = off + i" by simp
  with a show False by simp
qed

lemma pack_scalar_frame:
  assumes "pack_scalar src idx n off t m = Some m'"
  shows "length m' = length m \<and> (\<forall>k. \<not> (off \<le> int k \<and> int k < off + n) \<longrightarrow> m' ! k = m ! k)"
proof (cases "n \<le> tid t")
  case True
  with assms show ?thesis by (simp add: pack_scalar_def)
next
  case False
  with assms have "pack_direct src idx (tid t) off (tid t) m = Some m'"
    by (simp add: pack_scalar_pack_direct)
  from pack_direct_frame [OF this] False show ?thesis
    using outside_range [of off _ n "tid t"] by auto
qed

lemma pack_write_frame:
  assumes "pack_direct a idx p off i m = Some m' \<or> pack_negated a idx p off i m = Some m'"
    and "0 \<le> i" "i < n"
  shows "length m' = length m \<and> (\<forall>k. \<not> (off \<le> int k \<and> int k < off + n) \<longrightarrow> m' ! k = m ! k)"
  using assms pack_direct_frame [of a idx p off i m m'] pack_negated_frame [of a idx p off i m m']
    outside_range [of off _ n i]
  by auto

lemma pack_write_nonneg:
  "pack_direct a idx p off i m = Some m' \<or> pack_negated a idx p off i m = Some m' \<Longrightarrow> 0 \<le> p"
  using pack_direct_frame [of a idx p off i m m'] pack_negated_frame [of a idx p off i m m']
  by auto

lemma pack_vector_unfold:
  assumes "in_int (nX + nY)" and "tid t < nX + nY"
  shows "pack_vector X Y iX iY nX nY off 0 t m =
           (if tid t < nX then pack_direct X iX (tid t) off (tid t) m
            else Option.bind (sub_int (tid t) nX) (\<lambda>p. pack_direct Y iY p off (tid t) m))"
    and "pack_vector X Y iX iY nX nY off 1 t m =
           (if tid t < nY then pack_direct Y iY (tid t) off (tid t) m
            else Option.bind (sub_int (tid t) nY) (\<lambda>p. pack_negated X iX p off (tid t) m))"
    and "pack_vector X Y iX iY nX nY off 2 t m =
           (if tid t < nX then pack_negated X iX (tid t) off (tid t) m
            else Option.bind (sub_int (tid t) nX) (\<lambda>p. pack_negated Y iY p off (tid t) m))"
    and "pack_vector X Y iX iY nX nY off 3 t m =
           (if tid t < nY then pack_negated Y iY (tid t) off (tid t) m
            else Option.bind (sub_int (tid t) nY) (\<lambda>p. pack_direct X iX p off (tid t) m))"
  using assms by (simp_all add: pack_vector_def add_int_def)

lemma pack_vector_undefined: "\<not> in_int (nX + nY) \<Longrightarrow> pack_vector X Y iX iY nX nY off rot t m = None"
  by (simp add: pack_vector_def add_int_def)

lemma sub_int_bind:
  "Option.bind (sub_int i n) f = Some r \<Longrightarrow> f (i - n) = Some r"
  by (simp add: sub_int_def split: if_splits)

lemma pack_vector_cases:
  assumes "pack_vector X Y iX iY nX nY off rot t m = Some m'"
  obtains (idle) "m' = m"
  | (first) a idx where "pack_direct a idx (tid t) off (tid t) m = Some m'
        \<or> pack_negated a idx (tid t) off (tid t) m = Some m'" "tid t < nX + nY"
  | (second) a idx n where "pack_direct a idx (tid t - n) off (tid t) m = Some m'
        \<or> pack_negated a idx (tid t - n) off (tid t) m = Some m'" "tid t < nX + nY"
      "n = nX \<or> n = nY" "n \<le> tid t"
proof -
  from assms have i: "in_int (nX + nY)"
    using pack_vector_undefined [of nX nY X Y iX iY off rot t m] by (cases "in_int (nX + nY)") auto
  show thesis
  proof (cases "tid t < nX + nY \<and> (rot = 0 \<or> rot = 1 \<or> rot = 2 \<or> rot = 3)")
    case False
    with i assms have "m' = m"
      by (cases "tid t < nX + nY") (auto simp: pack_vector_idle pack_vector_other)
    then show thesis by (rule idle)
  next
    case True
    then have lt: "tid t < nX + nY" by simp
    note u = pack_vector_unfold [OF i lt, of X Y iX iY off m]
    from True consider "rot = 0" | "rot = 1" | "rot = 2" | "rot = 3" by blast
    then show thesis
    proof cases
      case 1
      show thesis
      proof (cases "tid t < nX")
        case True
        with assms 1 u(1) lt show thesis by (intro first [of X iX]) simp_all
      next
        case False
        with assms 1 u(1)
        have "Option.bind (sub_int (tid t) nX) (\<lambda>p. pack_direct Y iY p off (tid t) m) = Some m'"
          by simp
        then have "pack_direct Y iY (tid t - nX) off (tid t) m = Some m'"
          by (rule sub_int_bind)
        with False lt show thesis by (intro second [of Y iY nX]) simp_all
      qed
    next
      case 2
      show thesis
      proof (cases "tid t < nY")
        case True
        with assms 2 u(2) lt show thesis by (intro first [of Y iY]) simp_all
      next
        case False
        with assms 2 u(2)
        have "Option.bind (sub_int (tid t) nY) (\<lambda>p. pack_negated X iX p off (tid t) m) = Some m'"
          by simp
        then have "pack_negated X iX (tid t - nY) off (tid t) m = Some m'"
          by (rule sub_int_bind)
        with False lt show thesis by (intro second [of X iX nY]) simp_all
      qed
    next
      case 3
      show thesis
      proof (cases "tid t < nX")
        case True
        with assms 3 u(3) lt show thesis by (intro first [of X iX]) simp_all
      next
        case False
        with assms 3 u(3)
        have "Option.bind (sub_int (tid t) nX) (\<lambda>p. pack_negated Y iY p off (tid t) m) = Some m'"
          by simp
        then have "pack_negated Y iY (tid t - nX) off (tid t) m = Some m'"
          by (rule sub_int_bind)
        with False lt show thesis by (intro second [of Y iY nX]) simp_all
      qed
    next
      case 4
      show thesis
      proof (cases "tid t < nY")
        case True
        with assms 4 u(4) lt show thesis by (intro first [of Y iY]) simp_all
      next
        case False
        with assms 4 u(4)
        have "Option.bind (sub_int (tid t) nY) (\<lambda>p. pack_direct X iX p off (tid t) m) = Some m'"
          by simp
        then have "pack_direct X iX (tid t - nY) off (tid t) m = Some m'"
          by (rule sub_int_bind)
        with False lt show thesis by (intro second [of X iX nY]) simp_all
      qed
    qed
  qed
qed

lemma pack_vector_frame:
  assumes "pack_vector X Y iX iY nX nY off rot t m = Some m'" and "0 \<le> nX" "0 \<le> nY"
  shows "length m' = length m \<and>
         (\<forall>k. \<not> (off \<le> int k \<and> int k < off + (nX + nY)) \<longrightarrow> m' ! k = m ! k)"
  using assms(1)
proof (cases rule: pack_vector_cases)
  case idle
  then show ?thesis by simp
next
  case (first a idx)
  from first(1) have "0 \<le> tid t" by (rule pack_write_nonneg)
  with first show ?thesis by (intro pack_write_frame)
next
  case (second a idx n)
  with assms(2,3) have "0 \<le> tid t" by auto
  with second show ?thesis by (intro pack_write_frame)
qed

lemma launch_pack_scalar_frame:
  assumes "launch (pack_scalar src idx n off) ts dst = Some dst'"
  shows "length dst' = length dst \<and>
         (\<forall>k. \<not> (off \<le> int k \<and> int k < off + n) \<longrightarrow> dst' ! k = dst ! k)"
  using assms
  by (rule launch_preserves) (auto dest!: pack_scalar_frame)

lemma launch_pack_vector_frame:
  assumes "launch (pack_vector X Y iX iY nX nY off rot) ts dst = Some dst'" and "0 \<le> nX" "0 \<le> nY"
  shows "length dst' = length dst \<and>
         (\<forall>k. \<not> (off \<le> int k \<and> int k < off + (nX + nY)) \<longrightarrow> dst' ! k = dst ! k)"
  using assms(1)
proof (rule launch_preserves)
  show "length dst = length dst \<and>
      (\<forall>k. \<not> (off \<le> int k \<and> int k < off + (nX + nY)) \<longrightarrow> dst ! k = dst ! k)"
    by simp
next
  fix t m m'
  assume "length m = length dst \<and>
      (\<forall>k. \<not> (off \<le> int k \<and> int k < off + (nX + nY)) \<longrightarrow> m ! k = dst ! k)"
    and "pack_vector X Y iX iY nX nY off rot t m = Some m'"
  with pack_vector_frame [OF _ assms(2,3), of X Y iX iY off rot t m m']
  show "length m' = length dst \<and>
      (\<forall>k. \<not> (off \<le> int k \<and> int k < off + (nX + nY)) \<longrightarrow> m' ! k = dst ! k)"
    by simp
qed

lemma length_rotation_table:
  "rot = 0 \<or> rot = 1 \<or> rot = 2 \<or> rot = 3 \<Longrightarrow>
   length (rotation_table rot xs ys) = length xs + length ys"
  by (auto simp: rotation_table_def)

lemma two_writes:
  fixes dst :: "'a list"
  assumes l1: "launch k1 ts1 dst = Some (write_range o1 v1 dst)"
    and l2: "\<And>b :: 'a list. length b = length dst \<Longrightarrow> launch k2 ts2 b = Some (write_range o2 v2 b)"
    and r1: "valid_range o1 (int (length v1)) dst" and r2: "valid_range o2 (int (length v2)) dst"
    and d: "o1 + int (length v1) \<le> o2 \<or> o2 + int (length v2) \<le> o1"
  shows "\<exists>b1 b2. launch k1 ts1 dst = Some b1 \<and> launch k2 ts2 b1 = Some b2 \<and>
           take (length v1) (drop (nat o1) b2) = v1 \<and> take (length v2) (drop (nat o2) b2) = v2"
proof -
  from r1 r2 have b: "nat o1 + length v1 \<le> length dst" "nat o2 + length v2 \<le> length dst"
    "0 \<le> o1" "0 \<le> o2"
    unfolding valid_range_def by linarith+
  with d have d': "nat o1 + length v1 \<le> nat o2 \<or> nat o2 + length v2 \<le> nat o1" by linarith
  let ?b1 = "write_range o1 v1 dst"
  let ?b2 = "write_range o2 v2 ?b1"
  from b have len: "length ?b1 = length dst" by (simp add: length_write_range)
  then have "launch k2 ts2 ?b1 = Some ?b2" by (rule l2)
  moreover from b d' have "take (length v1) (drop (nat o1) ?b2) = v1"
    by (intro write_range_disjoint)
  moreover from b len have "take (length v2) (drop (nat o2) ?b2) = v2"
    by (intro segment_write_range) simp
  ultimately show ?thesis using l1 by blast
qed

subsection \<open>Packs into ranges that do not overlap\<close>

text \<open>
  C9. A launch of the scalar pack kernel that completes leaves every buffer position
  outside \<open>[off, off + n)\<close> as it was, and the buffer keeps its length; so does a launch
  of the vector pack kernel, for \<open>[off, off + nX + nY)\<close> and counts that are not
  negative. Two packs into ranges of one buffer that do not overlap, one launch after
  the other, leave in each range the values of its own pack.
\<close>

theorem pack_frame:
  fixes X Y X' Y' dst :: "('a::ring_1) list"
  shows
  "(launch (pack_scalar src idx n off) ts dst = Some dst' \<longrightarrow>
      length dst' = length dst \<and>
      (\<forall>k. \<not> (off \<le> int k \<and> int k < off + n) \<longrightarrow> dst' ! k = dst ! k)) \<and>
   (0 \<le> nX \<and> 0 \<le> nY \<and> launch (pack_vector X Y iX iY nX nY off rot) ts dst = Some dst' \<longrightarrow>
      length dst' = length dst \<and>
      (\<forall>k. \<not> (off \<le> int k \<and> int k < off + (nX + nY)) \<longrightarrow> dst' ! k = dst ! k)) \<and>
   (valid_indexes idxA nA srcA \<and> valid_indexes idxB nB srcB \<and>
    valid_range offA nA dst \<and> valid_range offB nB dst \<and>
    (offA + nA \<le> offB \<or> offB + nB \<le> offA) \<and> covers tsA nA \<and> covers tsB nB \<longrightarrow>
      (\<exists>b1 b2. launch (pack_scalar srcA idxA nA offA) tsA dst = Some b1 \<and>
         launch (pack_scalar srcB idxB nB offB) tsB b1 = Some b2 \<and>
         take (nat nA) (drop (nat offA) b2) = gather srcA idxA \<and>
         take (nat nB) (drop (nat offB) b2) = gather srcB idxB)) \<and>
   (valid_indexes iX nX X \<and> valid_indexes iY nY Y \<and>
    valid_indexes iX' nX' X' \<and> valid_indexes iY' nY' Y' \<and>
    valid_range offA (nX + nY) dst \<and> valid_range offB (nX' + nY') dst \<and>
    (offA + (nX + nY) \<le> offB \<or> offB + (nX' + nY') \<le> offA) \<and>
    covers tsA (nX + nY) \<and> covers tsB (nX' + nY') \<and>
    (rot = 0 \<or> rot = 1 \<or> rot = 2 \<or> rot = 3) \<and> (rot' = 0 \<or> rot' = 1 \<or> rot' = 2 \<or> rot' = 3) \<longrightarrow>
      (\<exists>b1 b2. launch (pack_vector X Y iX iY nX nY offA rot) tsA dst = Some b1 \<and>
         launch (pack_vector X' Y' iX' iY' nX' nY' offB rot') tsB b1 = Some b2 \<and>
         take (nat (nX + nY)) (drop (nat offA) b2) = rotation_table rot (gather X iX) (gather Y iY) \<and>
         take (nat (nX' + nY')) (drop (nat offB) b2) =
           rotation_table rot' (gather X' iX') (gather Y' iY')))"
proof -
  have scalar: "length dst' = length dst \<and>
      (\<forall>k. \<not> (off \<le> int k \<and> int k < off + n) \<longrightarrow> dst' ! k = dst ! k)"
    if "launch (pack_scalar src idx n off) ts dst = Some dst'"
    using that by (rule launch_pack_scalar_frame)
  have vector: "length dst' = length dst \<and>
      (\<forall>k. \<not> (off \<le> int k \<and> int k < off + (nX + nY)) \<longrightarrow> dst' ! k = dst ! k)"
    if "0 \<le> nX \<and> 0 \<le> nY \<and> launch (pack_vector X Y iX iY nX nY off rot) ts dst = Some dst'"
    using that launch_pack_vector_frame [of X Y iX iY nX nY off rot ts dst dst'] by simp
  have two_scalar: "\<exists>b1 b2. launch (pack_scalar srcA idxA nA offA) tsA dst = Some b1 \<and>
         launch (pack_scalar srcB idxB nB offB) tsB b1 = Some b2 \<and>
         take (nat nA) (drop (nat offA) b2) = gather srcA idxA \<and>
         take (nat nB) (drop (nat offB) b2) = gather srcB idxB"
    if a: "valid_indexes idxA nA srcA \<and> valid_indexes idxB nB srcB \<and>
    valid_range offA nA dst \<and> valid_range offB nB dst \<and>
    (offA + nA \<le> offB \<or> offB + nB \<le> offA) \<and> covers tsA nA \<and> covers tsB nB"
  proof -
  let ?v1 = "gather srcA idxA" and ?v2 = "gather srcB idxB"
  from a have len: "int (length ?v1) = nA" "int (length ?v2) = nB"
    by (simp_all add: gather_def valid_indexes_def)
  have "\<exists>b1 b2. launch (pack_scalar srcA idxA nA offA) tsA dst = Some b1 \<and>
         launch (pack_scalar srcB idxB nB offB) tsB b1 = Some b2 \<and>
         take (length ?v1) (drop (nat offA) b2) = ?v1 \<and>
         take (length ?v2) (drop (nat offB) b2) = ?v2"
  proof (rule two_writes)
    from a show "launch (pack_scalar srcA idxA nA offA) tsA dst = Some (write_range offA ?v1 dst)"
      by (intro launch_pack_scalar) simp_all
    show "launch (pack_scalar srcB idxB nB offB) tsB b = Some (write_range offB ?v2 b)"
      if "length b = length dst" for b :: "'a list"
      using a that valid_range_cong [of b dst offB nB] by (intro launch_pack_scalar) simp_all
    from a len show "valid_range offA (int (length ?v1)) dst" "valid_range offB (int (length ?v2)) dst"
      "offA + int (length ?v1) \<le> offB \<or> offB + int (length ?v2) \<le> offA"
      by simp_all
  qed
  moreover from len have "length ?v1 = nat nA" "length ?v2 = nat nB" by linarith+
  ultimately show ?thesis
    by simp
  qed
  have two_vector: "\<exists>b1 b2. launch (pack_vector X Y iX iY nX nY offA rot) tsA dst = Some b1 \<and>
         launch (pack_vector X' Y' iX' iY' nX' nY' offB rot') tsB b1 = Some b2 \<and>
         take (nat (nX + nY)) (drop (nat offA) b2) = rotation_table rot (gather X iX) (gather Y iY) \<and>
         take (nat (nX' + nY')) (drop (nat offB) b2) =
           rotation_table rot' (gather X' iX') (gather Y' iY')"
    if a: "valid_indexes iX nX X \<and> valid_indexes iY nY Y \<and>
    valid_indexes iX' nX' X' \<and> valid_indexes iY' nY' Y' \<and>
    valid_range offA (nX + nY) dst \<and> valid_range offB (nX' + nY') dst \<and>
    (offA + (nX + nY) \<le> offB \<or> offB + (nX' + nY') \<le> offA) \<and>
    covers tsA (nX + nY) \<and> covers tsB (nX' + nY') \<and>
    (rot = 0 \<or> rot = 1 \<or> rot = 2 \<or> rot = 3) \<and> (rot' = 0 \<or> rot' = 1 \<or> rot' = 2 \<or> rot' = 3)"
  proof -
  let ?v1 = "rotation_table rot (gather X iX) (gather Y iY)"
  let ?v2 = "rotation_table rot' (gather X' iX') (gather Y' iY')"
  from a have len: "int (length ?v1) = nX + nY" "int (length ?v2) = nX' + nY'"
    by (simp_all add: length_rotation_table gather_def valid_indexes_def)
  have "\<exists>b1 b2. launch (pack_vector X Y iX iY nX nY offA rot) tsA dst = Some b1 \<and>
         launch (pack_vector X' Y' iX' iY' nX' nY' offB rot') tsB b1 = Some b2 \<and>
         take (length ?v1) (drop (nat offA) b2) = ?v1 \<and>
         take (length ?v2) (drop (nat offB) b2) = ?v2"
  proof (rule two_writes)
    from a show "launch (pack_vector X Y iX iY nX nY offA rot) tsA dst = Some (write_range offA ?v1 dst)"
      by (intro launch_pack_vector) simp_all
    show "launch (pack_vector X' Y' iX' iY' nX' nY' offB rot') tsB b = Some (write_range offB ?v2 b)"
      if "length b = length dst" for b :: "'a list"
      using a that valid_range_cong [of b dst offB "nX' + nY'"]
      by (intro launch_pack_vector) simp_all
    from a len show "valid_range offA (int (length ?v1)) dst" "valid_range offB (int (length ?v2)) dst"
      "offA + int (length ?v1) \<le> offB \<or> offB + int (length ?v2) \<le> offA"
      by simp_all
  qed
  moreover from len have "length ?v1 = nat (nX + nY)" "length ?v2 = nat (nX' + nY')" by linarith+
  ultimately show ?thesis
    by simp
  qed
  show ?thesis
    by (rule conjI [OF impI [OF scalar] conjI [OF impI [OF vector]
          conjI [OF impI [OF two_scalar] impI [OF two_vector]]]])
qed

theorem pack_frame_witness:
  "launch (pack_scalar [10, 20] [1, 0] 2 0) (grid 1 2) [5, 5, 5, 5, 5 :: int] = Some [20, 10, 5, 5, 5] \<and>
   (0 :: int) \<le> 1 \<and>
   launch (pack_vector [1] [2] [0] [0] 1 1 0 1) (grid 1 2) [5, 5, 5, 5, 5 :: int] = Some [2, - 1, 5, 5, 5] \<and>
   valid_indexes [1, 0] 2 [10, 20 :: int] \<and> valid_indexes [2] 1 [7, 8, 9 :: int] \<and>
   valid_range 0 2 [5, 5, 5, 5, 5 :: int] \<and> valid_range 3 1 [5, 5, 5, 5, 5 :: int] \<and>
   ((0 :: int) + 2 \<le> 3 \<or> (3 :: int) + 1 \<le> 0) \<and> covers (grid 1 2) 2 \<and> covers (grid 1 4) 1 \<and>
   launch (pack_scalar [7, 8, 9] [2] 1 3) (grid 1 4) [20, 10, 5, 5, 5 :: int] = Some [20, 10, 5, 9, 5] \<and>
   valid_indexes [0] 1 [1 :: int] \<and> valid_indexes [0] 1 [2 :: int] \<and>
   valid_indexes [0] 1 [3 :: int] \<and> valid_indexes [0] 1 [4 :: int] \<and>
   valid_range 0 (1 + 1) [5, 5, 5, 5, 5 :: int] \<and> valid_range 2 (1 + 1) [5, 5, 5, 5, 5 :: int] \<and>
   ((0 :: int) + (1 + 1) \<le> 2 \<or> (2 :: int) + (1 + 1) \<le> 0) \<and>
   covers (grid 1 2) (1 + 1) \<and> covers (grid 1 4) (1 + 1) \<and>
   launch (pack_vector [3] [4] [0] [0] 1 1 2 3) (grid 1 4) [2, - 1, 5, 5, 5 :: int] =
     Some [2, - 1, - 4, 3, 5]"
  using pack_frame [where src = "[10, 20 :: int]" and idx = "[1, 0]" and n = 2 and off = 0
      and ts = "grid 1 2" and dst = "[5, 5, 5, 5, 5]" and dst' = "[20, 10, 5, 5, 5]"
      and srcA = "[10, 20]" and idxA = "[1, 0]" and nA = 2 and offA = 0 and tsA = "grid 1 2"
      and srcB = "[7, 8, 9]" and idxB = "[2]" and nB = 1 and offB = 3 and tsB = "grid 1 4"]
    pack_frame [where X = "[1 :: int]" and Y = "[2]" and iX = "[0]" and iY = "[0]" and nX = 1
      and nY = 1 and off = 0 and rot = 1 and ts = "grid 1 2" and dst = "[5, 5, 5, 5, 5]"
      and dst' = "[2, - 1, 5, 5, 5]" and offA = 0 and tsA = "grid 1 2"
      and X' = "[3]" and Y' = "[4]" and iX' = "[0]" and iY' = "[0]" and nX' = 1 and nY' = 1
      and offB = 2 and rot' = 3 and tsB = "grid 1 4"]
  by (simp add: kernel_defs)

section \<open>Scalar unpack\<close>

lemma valid_indexes_cong: "length a = length b \<Longrightarrow> valid_indexes idx n a = valid_indexes idx n b"
  by (simp add: valid_indexes_def)

lemma unpack_scalar_idle: "n \<le> tid t \<Longrightarrow> unpack_scalar src idx n off t m = Some m"
  by (simp add: unpack_scalar_def)

lemma unpack_scalar_active:
  assumes "valid_indexes idx n m" "valid_range off n src" "0 \<le> tid t" "tid t < n"
  shows "unpack_scalar src idx n off t m =
           Some (m[nat (idx ! nat (tid t)) := src ! nat (off + tid t)])"
proof -
  from assms have "load idx (tid t) = Some (idx ! nat (tid t))"
    by (intro load_Some) (simp_all add: valid_indexes_def)
  moreover from assms have "add_int off (tid t) = Some (off + tid t)"
    using valid_range_add [of off n src "tid t"] by (simp add: add_int_Some)
  moreover from assms have "load src (off + tid t) = Some (src ! nat (off + tid t))"
    using valid_range_add [of off n src "tid t"] by (intro load_Some) simp_all
  moreover from assms have "store m (idx ! nat (tid t)) v = Some (m[nat (idx ! nat (tid t)) := v])" for v
    using valid_indexes_nth [of idx n m "tid t"] by (intro store_Some) simp_all
  ultimately show ?thesis using assms(4) by (simp add: unpack_scalar_def)
qed

lemma launch_unpack_scalar:
  fixes dst :: "'a list"
  assumes vi: "valid_indexes idx n dst" and vr: "valid_range off n src" and cov: "covers ts n"
    and cons: "\<And>i j. i < length idx \<Longrightarrow> j < length idx \<Longrightarrow> idx ! i = idx ! j \<Longrightarrow>
        src ! (nat off + i) = src ! (nat off + j)"
  shows "\<exists>dst'. launch (unpack_scalar src idx n off) ts dst = Some dst' \<and>
           length dst' = length dst \<and>
           (\<forall>i < length idx. dst' ! nat (idx ! i) = src ! (nat off + i)) \<and>
           (\<forall>k. int k \<notin> set idx \<longrightarrow> dst' ! k = dst ! k)"
proof -
  let ?act = "\<lambda>i. 0 \<le> i \<and> i < n"
  let ?pos = "\<lambda>i. nat (idx ! nat i)"
  let ?val = "\<lambda>i. src ! nat (off + i)"
  from vi have len: "int (length idx) = n" by (simp add: valid_indexes_def)
  from vr have off: "0 \<le> off" by (simp add: valid_range_def)
  have ge: "0 \<le> idx ! i" "idx ! i < int (length dst)" if "i < length idx" for i
    using valid_indexes_nth [OF vi, of "int i"] that len by auto
  have "\<exists>m'. launch (unpack_scalar src idx n off) ts dst = Some m' \<and> length m' = length dst \<and>
      (\<forall>i. ?act i \<longrightarrow> i \<in> tid ` set ts \<longrightarrow> m' ! ?pos i = ?val i) \<and>
      (\<forall>a. (\<forall>i. ?act i \<longrightarrow> i \<in> tid ` set ts \<longrightarrow> ?pos i \<noteq> a) \<longrightarrow> m' ! a = dst ! a)"
  proof (rule launch_writes [where I = "\<lambda>m. length m = length dst" and rd = nth and act = ?act
        and pos = ?pos and val = ?val])
    fix t and m :: "'a list"
    assume t: "t \<in> set ts" and m: "length m = length dst"
    from cov t have nn: "0 \<le> tid t" by (rule covers_nonneg)
    from vi m have vm: "valid_indexes idx n m" by (simp add: valid_indexes_cong [of m dst])
    show "\<exists>m'. unpack_scalar src idx n off t m = Some m' \<and> length m' = length dst \<and>
        (\<forall>a. m' ! a = (if ?act (tid t) \<and> ?pos (tid t) = a then ?val (tid t) else m ! a))"
    proof (cases "tid t < n")
      case True
      with nn len have "nat (tid t) < length idx" by linarith
      with ge m have "nat (idx ! nat (tid t)) < length m" by (simp add: nat_less_iff)
      with True nn m unpack_scalar_active [OF vm vr nn True] show ?thesis
        by (auto simp: nth_list_update)
    next
      case False
      with m show ?thesis by (simp add: unpack_scalar_idle)
    qed
  next
    fix i j
    assume a: "?act i" "?act j" "?pos i = ?pos j"
    with len have l: "nat i < length idx" "nat j < length idx" by linarith+
    with a ge [of "nat i"] ge [of "nat j"] have "idx ! nat i = idx ! nat j" by linarith
    with l have "src ! (nat off + nat i) = src ! (nat off + nat j)" by (rule cons)
    moreover from a off have "nat (off + i) = nat off + nat i" "nat (off + j) = nat off + nat j"
      by linarith+
    ultimately show "?val i = ?val j" by simp
  qed simp
  then obtain m' where l: "launch (unpack_scalar src idx n off) ts dst = Some m'"
    and lm: "length m' = length dst"
    and hit: "\<And>i. ?act i \<Longrightarrow> i \<in> tid ` set ts \<Longrightarrow> m' ! ?pos i = ?val i"
    and miss: "\<And>a. (\<forall>i. ?act i \<longrightarrow> i \<in> tid ` set ts \<longrightarrow> ?pos i \<noteq> a) \<Longrightarrow> m' ! a = dst ! a"
    by blast
  have "m' ! nat (idx ! i) = src ! (nat off + i)" if "i < length idx" for i
  proof -
    from that len have a: "?act (int i)" by auto
    with cov have "int i \<in> tid ` set ts" by (intro covers_mem) simp_all
    with a have "m' ! ?pos (int i) = ?val (int i)" by (rule hit)
    moreover from off have "nat (off + int i) = nat off + i" by linarith
    ultimately show ?thesis by simp
  qed
  moreover have "m' ! k = dst ! k" if "int k \<notin> set idx" for k
  proof (rule miss, intro allI impI)
    fix i
    assume a: "?act i"
    with len have "nat i < length idx" by linarith
    with that ge [of "nat i"] show "?pos i \<noteq> k"
      using nth_mem [of "nat i" idx] by (metis int_nat_eq)
  qed
  ultimately show ?thesis using l lm by blast
qed

subsection \<open>The contract of scalar unpack\<close>

text \<open>
  C3. Scalar unpack, for an index list of length \<open>n\<close> whose values are positions of
  the destination array and a range \<open>[off, off + n)\<close> inside the source buffer: the
  thread with identifier \<open>i\<close> in \<open>[0, n)\<close> copies \<open>source[offset + i]\<close> into
  \<open>destination[index[i]]\<close>; a thread with an identifier \<open>\<ge> n\<close> leaves the array as it is,
  whatever the arrays are; and after a covering launch with an index list without
  duplicates every \<open>destination[index[i]]\<close> holds \<open>source[offset + i]\<close>, the other
  positions of the array being unchanged.
\<close>

theorem unpack_scalar_contract:
  assumes "valid_indexes idx n dst" and "valid_range off n src"
  shows "(\<forall>t. 0 \<le> tid t \<and> tid t < n \<longrightarrow>
            unpack_scalar src idx n off t dst =
              Some (dst[nat (idx ! nat (tid t)) := src ! nat (off + tid t)])) \<and>
         (\<forall>t src' idx' off' dst'. n \<le> tid t \<longrightarrow>
            unpack_scalar src' idx' n off' t dst' = Some (dst' :: 'a list)) \<and>
         (\<forall>ts. covers ts n \<and> distinct idx \<longrightarrow>
            (\<exists>dst'. launch (unpack_scalar src idx n off) ts dst = Some dst' \<and>
               length dst' = length dst \<and>
               (\<forall>i < length idx. dst' ! nat (idx ! i) = src ! (nat off + i)) \<and>
               (\<forall>k. int k \<notin> set idx \<longrightarrow> dst' ! k = dst ! k)))"
proof -
  have active: "unpack_scalar src idx n off t dst =
      Some (dst[nat (idx ! nat (tid t)) := src ! nat (off + tid t)])"
    if "0 \<le> tid t \<and> tid t < n" for t
    using assms that by (simp add: unpack_scalar_active)
  have idle: "unpack_scalar src' idx' n off' t dst' = Some dst'"
    if "n \<le> tid t" for t src' idx' off' and dst' :: "'a list"
    using that by (rule unpack_scalar_idle)
  have all: "\<exists>dst'. launch (unpack_scalar src idx n off) ts dst = Some dst' \<and>
               length dst' = length dst \<and>
               (\<forall>i < length idx. dst' ! nat (idx ! i) = src ! (nat off + i)) \<and>
               (\<forall>k. int k \<notin> set idx \<longrightarrow> dst' ! k = dst ! k)"
    if "covers ts n \<and> distinct idx" for ts
  proof (rule launch_unpack_scalar [OF assms])
    from that show "covers ts n" by simp
    fix i j
    assume "i < length idx" "j < length idx" "idx ! i = idx ! j"
    with that have "i = j" by (simp add: nth_eq_iff_index_eq)
    then show "src ! (nat off + i) = src ! (nat off + j)" by simp
  qed
  from active idle all show ?thesis by blast
qed

theorem unpack_scalar_contract_witness:
  "valid_indexes [2, 0] 2 [0, 0, 0 :: int] \<and> valid_range 1 2 [7, 30, 10, 7 :: int] \<and>
   covers (grid 2 2) 2 \<and> distinct [2, 0 :: int] \<and>
   launch (unpack_scalar [7, 30, 10, 7] [2, 0] 2 1) (grid 2 2) [0, 0, 0 :: int] = Some [10, 0, 30]"
  using unpack_scalar_contract [of "[2, 0]" 2 "[0, 0, 0 :: int]" 1 "[7, 30, 10, 7]"]
  by (simp add: kernel_defs)

section \<open>Scalar round trip\<close>

text \<open>
  C7. For every array \<open>A\<close>, every index list \<open>I\<close> of distinct positions of \<open>A\<close> and
  every offset whose range lies inside the buffer: a scalar pack of \<open>A\<close> with \<open>I\<close>,
  \<open>|I|\<close> and the offset, followed by a scalar unpack of the buffer it leaves, with the
  same index list, count and offset, into a zero array as long as \<open>A\<close>, gives an array
  equal to \<open>A\<close> at every index in \<open>I\<close> (and zero elsewhere). Both launches complete.
\<close>

theorem scalar_round_trip:
  fixes A :: "('a::zero) list"
  assumes "valid_indexes I n A" and "distinct I" and "valid_range off n buf"
    and "covers ts n" and "covers ts' n"
  shows "\<exists>buf' A'. launch (pack_scalar A I n off) ts buf = Some buf' \<and>
           launch (unpack_scalar buf' I n off) ts' (replicate (length A) 0) = Some A' \<and>
           length A' = length A \<and>
           (\<forall>j \<in> set I. A' ! nat j = A ! nat j) \<and>
           (\<forall>k < length A. int k \<notin> set I \<longrightarrow> A' ! k = 0)"
proof -
  let ?buf = "write_range off (gather A I) buf"
  let ?Z = "replicate (length A) (0 :: 'a)"
  from assms have pack: "launch (pack_scalar A I n off) ts buf = Some ?buf"
    by (intro launch_pack_scalar)
  from assms have b: "0 \<le> off" "nat off + length I \<le> length buf"
    by (auto simp: valid_range_def valid_indexes_def)
  then have lb: "length ?buf = length buf"
    by (simp add: length_write_range gather_def)
  have nb: "?buf ! (nat off + i) = A ! nat (I ! i)" if "i < length I" for i
    using that b by (simp add: nth_write_range gather_def)
  from assms(1) have "valid_indexes I n ?Z" by (simp add: valid_indexes_def)
  moreover from assms(3) lb have "valid_range off n ?buf" by (simp add: valid_range_cong [of ?buf buf])
  moreover note \<open>covers ts' n\<close>
  moreover have "?buf ! (nat off + i) = ?buf ! (nat off + j)"
    if "i < length I" "j < length I" "I ! i = I ! j" for i j
    using that by (simp add: nb)
  ultimately have "\<exists>A'. launch (unpack_scalar ?buf I n off) ts' ?Z = Some A' \<and>
      length A' = length ?Z \<and>
      (\<forall>i < length I. A' ! nat (I ! i) = ?buf ! (nat off + i)) \<and>
      (\<forall>k. int k \<notin> set I \<longrightarrow> A' ! k = ?Z ! k)"
    by (rule launch_unpack_scalar)
  then obtain A' where u: "launch (unpack_scalar ?buf I n off) ts' ?Z = Some A'"
    and la: "length A' = length A"
    and hit: "\<And>i. i < length I \<Longrightarrow> A' ! nat (I ! i) = ?buf ! (nat off + i)"
    and miss: "\<And>k. int k \<notin> set I \<Longrightarrow> A' ! k = ?Z ! k"
    by auto
  have "A' ! nat j = A ! nat j" if "j \<in> set I" for j
  proof -
    from that obtain i where "i < length I" "I ! i = j" by (auto simp: in_set_conv_nth)
    with hit [of i] nb [of i] show ?thesis by simp
  qed
  moreover have "A' ! k = 0" if "k < length A" "int k \<notin> set I" for k
    using that miss [of k] by simp
  ultimately show ?thesis using pack u la by blast
qed

theorem scalar_round_trip_witness:
  "valid_indexes [2, 0] 2 [10, 20, 30 :: int] \<and> distinct [2, 0 :: int] \<and>
   valid_range 1 2 [7, 7, 7, 7 :: int] \<and> covers (grid 1 2) 2 \<and> covers (grid 2 2) 2 \<and>
   launch (pack_scalar [10, 20, 30] [2, 0] 2 1) (grid 1 2) [7, 7, 7, 7 :: int] = Some [7, 30, 10, 7] \<and>
   launch (unpack_scalar [7, 30, 10, 7] [2, 0] 2 1) (grid 2 2) (replicate (length [10, 20, 30 :: int]) 0) =
     Some [10, 0, 30 :: int]"
  using scalar_round_trip [of "[2, 0]" 2 "[10, 20, 30 :: int]" 1 "[7, 7, 7, 7]" "grid 1 2" "grid 2 2"]
  by (simp add: kernel_defs)

section \<open>Vector unpack\<close>

lemma unpack_vector_idle:
  "0 \<le> nY \<Longrightarrow> in_int (nX + nY) \<Longrightarrow> nX + nY \<le> tid t \<Longrightarrow>
   unpack_vector src iX iY nX nY off t d = Some d"
  by (cases d) (simp add: unpack_vector_def add_int_Some)

lemma unpack_vector_X:
  assumes "valid_indexes iX nX dX" "valid_range off (nX + nY) src" "0 \<le> nY"
    and "0 \<le> tid t" "tid t < nX"
  shows "unpack_vector src iX iY nX nY off t (dX, dY) =
           Some (dX[nat (iX ! nat (tid t)) := src ! nat (off + tid t)], dY)"
proof -
  from assms have lt: "tid t < nX + nY" by simp
  from assms have "load iX (tid t) = Some (iX ! nat (tid t))"
    by (intro load_Some) (simp_all add: valid_indexes_def)
  moreover from assms lt have "add_int off (tid t) = Some (off + tid t)"
    using valid_range_add [of off "nX + nY" src "tid t"] by (simp add: add_int_Some)
  moreover from assms lt have "load src (off + tid t) = Some (src ! nat (off + tid t))"
    using valid_range_add [of off "nX + nY" src "tid t"] by (intro load_Some) simp_all
  moreover from assms have "store dX (iX ! nat (tid t)) v = Some (dX[nat (iX ! nat (tid t)) := v])" for v
    using valid_indexes_nth [of iX nX dX "tid t"] by (intro store_Some) simp_all
  ultimately show ?thesis using assms(5) by (simp add: unpack_vector_def)
qed

lemma unpack_vector_Y:
  assumes "valid_indexes iY nY dY" "valid_range off (nX + nY) src" "0 \<le> nX"
    and "nX \<le> tid t" "tid t < nX + nY"
  shows "unpack_vector src iX iY nX nY off t (dX, dY) =
           Some (dX, dY[nat (iY ! nat (tid t - nX)) := src ! nat (off + tid t)])"
proof -
  from assms have p: "0 \<le> tid t - nX" "tid t - nX < nY" "0 \<le> tid t" "0 \<le> nY"
    by (auto dest: valid_indexes_nonneg)
  with assms have "in_int (nX + nY)" by (intro valid_range_total) simp_all
  then have "add_int nX nY = Some (nX + nY)" by (rule add_int_Some)
  moreover from p assms have "in_int (tid t - nX)"
    using valid_range_add [of off "nX + nY" src "tid t"] by (auto simp: in_int_def valid_range_def)
  then have "sub_int (tid t) nX = Some (tid t - nX)" by (rule sub_int_Some)
  moreover from assms p have "load iY (tid t - nX) = Some (iY ! nat (tid t - nX))"
    by (intro load_Some) (simp_all add: valid_indexes_def)
  moreover from assms p have "add_int off (tid t) = Some (off + tid t)"
    using valid_range_add [of off "nX + nY" src "tid t"] by (simp add: add_int_Some)
  moreover from assms p have "load src (off + tid t) = Some (src ! nat (off + tid t))"
    using valid_range_add [of off "nX + nY" src "tid t"] by (intro load_Some) simp_all
  moreover from assms p
  have "store dY (iY ! nat (tid t - nX)) v = Some (dY[nat (iY ! nat (tid t - nX)) := v])" for v
    using valid_indexes_nth [of iY nY dY "tid t - nX"] by (intro store_Some) simp_all
  ultimately show ?thesis using assms(4,5) by (simp add: unpack_vector_def)
qed

lemma launch_unpack_vector:
  fixes dX dY :: "'a list"
  assumes vX: "valid_indexes iX nX dX" and vY: "valid_indexes iY nY dY"
    and vr: "valid_range off (nX + nY) src" and cov: "covers ts (nX + nY)"
    and dist: "distinct iX" "distinct iY"
  shows "\<exists>dX' dY'. launch (unpack_vector src iX iY nX nY off) ts (dX, dY) = Some (dX', dY') \<and>
           length dX' = length dX \<and> length dY' = length dY \<and>
           (\<forall>i < length iX. dX' ! nat (iX ! i) = src ! (nat off + i)) \<and>
           (\<forall>j < length iY. dY' ! nat (iY ! j) = src ! (nat off + length iX + j)) \<and>
           (\<forall>k. int k \<notin> set iX \<longrightarrow> dX' ! k = dX ! k) \<and>
           (\<forall>k. int k \<notin> set iY \<longrightarrow> dY' ! k = dY ! k)"
proof -
  let ?I = "\<lambda>d :: 'a list \<times> 'a list. length (fst d) = length dX \<and> length (snd d) = length dY"
  let ?rd = "\<lambda>(d :: 'a list \<times> 'a list) a. case a of Inl k \<Rightarrow> fst d ! k | Inr k \<Rightarrow> snd d ! k"
  let ?act = "\<lambda>i. 0 \<le> i \<and> i < nX + nY"
  let ?pos = "\<lambda>i. if i < nX then Inl (nat (iX ! nat i)) else Inr (nat (iY ! nat (i - nX)))"
  let ?val = "\<lambda>i. src ! nat (off + i)"
  from vX vY have len: "int (length iX) = nX" "int (length iY) = nY" "0 \<le> nX" "0 \<le> nY"
    by (auto simp: valid_indexes_def)
  from vr have off: "0 \<le> off" by (simp add: valid_range_def)
  from vr len have tot: "in_int (nX + nY)" by (intro valid_range_total)
  have gx: "0 \<le> iX ! i" "iX ! i < int (length dX)" if "i < length iX" for i
    using valid_indexes_nth [OF vX, of "int i"] that len by auto
  have gy: "0 \<le> iY ! i" "iY ! i < int (length dY)" if "i < length iY" for i
    using valid_indexes_nth [OF vY, of "int i"] that len by auto
  have "\<exists>m'. launch (unpack_vector src iX iY nX nY off) ts (dX, dY) = Some m' \<and> ?I m' \<and>
      (\<forall>i. ?act i \<longrightarrow> i \<in> tid ` set ts \<longrightarrow> ?rd m' (?pos i) = ?val i) \<and>
      (\<forall>a. (\<forall>i. ?act i \<longrightarrow> i \<in> tid ` set ts \<longrightarrow> ?pos i \<noteq> a) \<longrightarrow> ?rd m' a = ?rd (dX, dY) a)"
  proof (rule launch_writes [where I = ?I and rd = ?rd and act = ?act and pos = ?pos and val = ?val])
    fix t and m :: "'a list \<times> 'a list"
    assume t: "t \<in> set ts" and m: "?I m"
    obtain x y where xy: "m = (x, y)" by (cases m)
    from cov t have nn: "0 \<le> tid t" by (rule covers_nonneg)
    from vX vY m xy have v: "valid_indexes iX nX x" "valid_indexes iY nY y"
      by (simp_all add: valid_indexes_cong [of x dX] valid_indexes_cong [of y dY])
    consider "tid t < nX" | "nX \<le> tid t" "tid t < nX + nY" | "nX + nY \<le> tid t"
      by linarith
    then show "\<exists>m'. unpack_vector src iX iY nX nY off t m = Some m' \<and> ?I m' \<and>
        (\<forall>a. ?rd m' a = (if ?act (tid t) \<and> ?pos (tid t) = a then ?val (tid t) else ?rd m a))"
    proof cases
      case 1
      with nn len have "nat (tid t) < length iX" by linarith
      with gx m xy have "nat (iX ! nat (tid t)) < length x" by (simp add: nat_less_iff)
      with 1 nn len m xy unpack_vector_X [OF v(1) vr len(4) nn 1, of iY y] show ?thesis
        by (auto simp: nth_list_update split: sum.splits)
    next
      case 2
      with len have "nat (tid t - nX) < length iY" by linarith
      with gy m xy have "nat (iY ! nat (tid t - nX)) < length y" by (simp add: nat_less_iff)
      with 2 nn m xy unpack_vector_Y [OF v(2) vr len(3) 2, of iX x] show ?thesis
        by (auto simp: nth_list_update split: sum.splits)
    next
      case 3
      with len tot m show ?thesis by (simp add: unpack_vector_idle)
    qed
  next
    fix i j
    assume a: "?act i" "?act j" "?pos i = ?pos j"
    have "i = j"
    proof (cases "i < nX")
      case True
      with a have j: "j < nX" and e: "nat (iX ! nat i) = nat (iX ! nat j)"
        by (auto split: if_splits)
      with True a len have l: "nat i < length iX" "nat j < length iX" by linarith+
      with e gx [of "nat i"] gx [of "nat j"] have "iX ! nat i = iX ! nat j" by linarith
      with l dist(1) have "nat i = nat j" by (simp add: nth_eq_iff_index_eq)
      with a(1,2) show ?thesis by linarith
    next
      case False
      with a have j: "\<not> j < nX" and e: "nat (iY ! nat (i - nX)) = nat (iY ! nat (j - nX))"
        by (auto split: if_splits)
      with False a len have l: "nat (i - nX) < length iY" "nat (j - nX) < length iY" by linarith+
      with e gy [of "nat (i - nX)"] gy [of "nat (j - nX)"]
      have "iY ! nat (i - nX) = iY ! nat (j - nX)" by linarith
      with l dist(2) have "nat (i - nX) = nat (j - nX)" by (simp add: nth_eq_iff_index_eq)
      with False j show ?thesis by linarith
    qed
    then show "?val i = ?val j" by simp
  qed simp
  then obtain dX' dY' where l: "launch (unpack_vector src iX iY nX nY off) ts (dX, dY) = Some (dX', dY')"
    and lm: "length dX' = length dX" "length dY' = length dY"
    and hit: "\<And>i. ?act i \<Longrightarrow> i \<in> tid ` set ts \<Longrightarrow> ?rd (dX', dY') (?pos i) = ?val i"
    and miss: "\<And>a. (\<forall>i. ?act i \<longrightarrow> i \<in> tid ` set ts \<longrightarrow> ?pos i \<noteq> a) \<Longrightarrow>
        ?rd (dX', dY') a = ?rd (dX, dY) a"
    by auto
  have "dX' ! nat (iX ! i) = src ! (nat off + i)" if "i < length iX" for i
  proof -
    from that len have a: "?act (int i)" "int i < nX" by auto
    then have "0 \<le> int i" "int i < nX + nY" by linarith+
    with cov have "int i \<in> tid ` set ts" by (rule covers_mem)
    with a(1) have "?rd (dX', dY') (?pos (int i)) = ?val (int i)" by (rule hit)
    moreover from off have "nat (off + int i) = nat off + i" by linarith
    ultimately show ?thesis using a(2) by simp
  qed
  moreover have "dY' ! nat (iY ! j) = src ! (nat off + length iX + j)" if "j < length iY" for j
  proof -
    from that len have a: "?act (nX + int j)" "\<not> nX + int j < nX" by auto
    then have "0 \<le> nX + int j" "nX + int j < nX + nY" by linarith+
    with cov have "nX + int j \<in> tid ` set ts" by (rule covers_mem)
    with a(1) have "?rd (dX', dY') (?pos (nX + int j)) = ?val (nX + int j)" by (rule hit)
    moreover from off len have "nat (off + (nX + int j)) = nat off + length iX + j" by linarith
    ultimately show ?thesis using a(2) by simp
  qed
  moreover have "dX' ! k = dX ! k" if "int k \<notin> set iX" for k
  proof -
    have "?rd (dX', dY') (Inl k) = ?rd (dX, dY) (Inl k)"
    proof (rule miss, intro allI impI)
      fix i
      assume a: "?act i"
      show "?pos i \<noteq> Inl k"
      proof (cases "i < nX")
        case True
        with a len have "nat i < length iX" by linarith
        with that gx [of "nat i"] have "nat (iX ! nat i) \<noteq> k"
          using nth_mem [of "nat i" iX] by (metis int_nat_eq)
        with True show ?thesis by simp
      next
        case False
        then show ?thesis by simp
      qed
    qed
    then show ?thesis by simp
  qed
  moreover have "dY' ! k = dY ! k" if "int k \<notin> set iY" for k
  proof -
    have "?rd (dX', dY') (Inr k) = ?rd (dX, dY) (Inr k)"
    proof (rule miss, intro allI impI)
      fix i
      assume a: "?act i"
      show "?pos i \<noteq> Inr k"
      proof (cases "i < nX")
        case True
        then show ?thesis by simp
      next
        case False
        with a len have "nat (i - nX) < length iY" by linarith
        with that gy [of "nat (i - nX)"] have "nat (iY ! nat (i - nX)) \<noteq> k"
          using nth_mem [of "nat (i - nX)" iY] by (metis int_nat_eq)
        with False show ?thesis by simp
      qed
    qed
    then show ?thesis by simp
  qed
  ultimately show ?thesis using l lm by blast
qed

subsection \<open>The contract of vector unpack\<close>

text \<open>
  C4. Vector unpack, for index lists of lengths \<open>nX\<close> and \<open>nY\<close> whose values are
  positions of their destination arrays and a range \<open>[off, off + nX + nY)\<close> inside the
  source buffer: the thread with identifier \<open>tid\<close> in \<open>[0, nX)\<close> sets
  \<open>destinationX[indexX[tid]]\<close> to \<open>source[offset + tid]\<close> and leaves \<open>destinationY\<close>
  alone, the thread with \<open>tid\<close> in \<open>[nX, nX + nY)\<close> sets
  \<open>destinationY[indexY[tid - nX]]\<close> to \<open>source[offset + tid]\<close> and leaves
  \<open>destinationX\<close> alone. The value stored is the element of the buffer itself: nothing
  is negated or swapped (the kernel is defined for every element type, with no
  arithmetic on it). After a covering launch with index lists without duplicates,
  \<open>destinationX[indexX[i]] = source[offset + i]\<close> for every \<open>i < nX\<close> and
  \<open>destinationY[indexY[j]] = source[offset + nX + j]\<close> for every \<open>j < nY\<close>.
\<close>

theorem unpack_vector_contract:
  assumes "valid_indexes iX nX dX" and "valid_indexes iY nY dY"
    and "valid_range off (nX + nY) src"
  shows "(\<forall>t. 0 \<le> tid t \<and> tid t < nX \<longrightarrow>
            unpack_vector src iX iY nX nY off t (dX, dY) =
              Some (dX[nat (iX ! nat (tid t)) := src ! nat (off + tid t)], dY)) \<and>
         (\<forall>t. nX \<le> tid t \<and> tid t < nX + nY \<longrightarrow>
            unpack_vector src iX iY nX nY off t (dX, dY) =
              Some (dX, dY[nat (iY ! nat (tid t - nX)) := src ! nat (off + tid t)])) \<and>
         (\<forall>ts. covers ts (nX + nY) \<and> distinct iX \<and> distinct iY \<longrightarrow>
            (\<exists>dX' dY'. launch (unpack_vector src iX iY nX nY off) ts (dX, dY) = Some (dX', dY') \<and>
               length dX' = length dX \<and> length dY' = length dY \<and>
               (\<forall>i < length iX. dX' ! nat (iX ! i) = src ! (nat off + i)) \<and>
               (\<forall>j < length iY. dY' ! nat (iY ! j) = src ! (nat off + length iX + j)) \<and>
               (\<forall>k. int k \<notin> set iX \<longrightarrow> dX' ! k = dX ! k) \<and>
               (\<forall>k. int k \<notin> set iY \<longrightarrow> dY' ! k = dY ! k)))"
proof -
  from assms have n: "0 \<le> nX" "0 \<le> nY" by (auto dest: valid_indexes_nonneg)
  have x: "unpack_vector src iX iY nX nY off t (dX, dY) =
      Some (dX[nat (iX ! nat (tid t)) := src ! nat (off + tid t)], dY)"
    if "0 \<le> tid t \<and> tid t < nX" for t
    using assms n that by (intro unpack_vector_X) simp_all
  have y: "unpack_vector src iX iY nX nY off t (dX, dY) =
      Some (dX, dY[nat (iY ! nat (tid t - nX)) := src ! nat (off + tid t)])"
    if "nX \<le> tid t \<and> tid t < nX + nY" for t
    using assms n that by (intro unpack_vector_Y) simp_all
  have all: "\<exists>dX' dY'. launch (unpack_vector src iX iY nX nY off) ts (dX, dY) = Some (dX', dY') \<and>
               length dX' = length dX \<and> length dY' = length dY \<and>
               (\<forall>i < length iX. dX' ! nat (iX ! i) = src ! (nat off + i)) \<and>
               (\<forall>j < length iY. dY' ! nat (iY ! j) = src ! (nat off + length iX + j)) \<and>
               (\<forall>k. int k \<notin> set iX \<longrightarrow> dX' ! k = dX ! k) \<and>
               (\<forall>k. int k \<notin> set iY \<longrightarrow> dY' ! k = dY ! k)"
    if "covers ts (nX + nY) \<and> distinct iX \<and> distinct iY" for ts
    using assms that by (intro launch_unpack_vector) simp_all
  show ?thesis
    by (rule conjI [OF allI [OF impI [OF x]] conjI [OF allI [OF impI [OF y]] allI [OF impI [OF all]]]])
qed

theorem unpack_vector_contract_witness:
  "valid_indexes [1, 0] 2 [0, 0 :: int] \<and> valid_indexes [2] 1 [0, 0, 0 :: int] \<and>
   valid_range 1 (2 + 1) [7, - 5, 6, 9, 7 :: int] \<and> covers (grid 2 2) (2 + 1) \<and>
   distinct [1, 0 :: int] \<and> distinct [2 :: int] \<and>
   launch (unpack_vector [7, - 5, 6, 9, 7] [1, 0] [2] 2 1 1) (grid 2 2) ([0, 0], [0, 0, 0 :: int]) =
     Some ([6, - 5], [0, 0, 9])"
  using unpack_vector_contract [where iX = "[1, 0]" and nX = 2 and dX = "[0, 0 :: int]"
      and iY = "[2]" and nY = 1 and dY = "[0, 0, 0]" and off = 1 and src = "[7, - 5, 6, 9, 7]"]
  by (simp add: kernel_defs)

section \<open>Threads beyond the count\<close>

lemma sint_of_nat_small: "n < 2 ^ 31 \<Longrightarrow> sint (of_nat n :: 32 word) = int n"
proof -
  assume "n < 2 ^ 31"
  then have "int n < 2 ^ 31" by simp
  then show ?thesis by (simp add: signed_of_nat signed_take_bit_int_eq_self)
qed

lemma tid_grid_thread:
  assumes "b * blk + i < 2 ^ 31"
  shows "tid \<lparr>blockDim_x = of_nat b, blockIdx_x = of_nat blk, threadIdx_x = of_nat i\<rparr> =
           int (b * blk + i)"
proof -
  have "(of_nat b * of_nat blk + of_nat i :: 32 word) = of_nat (b * blk + i)" by simp
  with assms show ?thesis by (simp only: tid_def thread.simps sint_of_nat_small)
qed

lemma grid_Suc:
  "grid (Suc g) b = grid g b @
     map (\<lambda>i. \<lparr>blockDim_x = of_nat b, blockIdx_x = of_nat g, threadIdx_x = of_nat i\<rparr>) [0..<b]"
  by (simp add: grid_def)

lemma map_tid_grid: "g * b < 2 ^ 31 \<Longrightarrow> map tid (grid g b) = map int [0..<g * b]"
proof (induction g)
  case 0
  then show ?case by (simp add: grid_def)
next
  case (Suc g)
  then have small: "g * b < 2 ^ 31" by simp
  have "map (\<lambda>i. tid \<lparr>blockDim_x = of_nat b, blockIdx_x = of_nat g, threadIdx_x = of_nat i\<rparr>) [0..<b] =
      map (\<lambda>i. int (b * g + i)) [0..<b]"
  proof (rule map_cong [OF refl])
    fix i
    assume "i \<in> set [0..<b]"
    with Suc.prems have "b * g + i < 2 ^ 31" by (simp add: mult.commute)
    then show "tid \<lparr>blockDim_x = of_nat b, blockIdx_x = of_nat g, threadIdx_x = of_nat i\<rparr> =
        int (b * g + i)"
      by (rule tid_grid_thread)
  qed
  also have "\<dots> = map int (map (\<lambda>i. i + g * b) [0..<b])"
    by (simp add: o_def add.commute mult.commute)
  also have "\<dots> = map int [g * b..<g * b + b]"
    by (simp only: map_add_upt add.commute)
  finally have row: "map (\<lambda>i. tid \<lparr>blockDim_x = of_nat b, blockIdx_x = of_nat g,
      threadIdx_x = of_nat i\<rparr>) [0..<b] = map int [g * b..<g * b + b]" .
  have "[0..<Suc g * b] = [0..<g * b] @ [g * b..<g * b + b]"
    using upt_add_eq_append [of 0 "g * b" b] by (simp add: add.commute)
  with row Suc.IH [OF small] show ?case
    by (simp add: grid_Suc o_def)
qed

text \<open>
  A grid with at least \<open>n\<close> threads, and fewer than \<open>2 ^ 31\<close> so that no thread
  identifier wraps, is a launch that covers \<open>[0, n)\<close>.
\<close>

lemma covers_grid:
  assumes "n \<le> int (g * b)" and "g * b < 2 ^ 31"
  shows "covers (grid g b) n"
proof -
  have s: "tid ` set (grid g b) = int ` {0..<g * b}"
    using map_tid_grid [OF assms(2)] by (metis set_map set_upt)
  have "0 \<le> tid t" if "t \<in> set (grid g b)" for t
  proof -
    from that have "tid t \<in> tid ` set (grid g b)" by (rule imageI)
    with s show ?thesis by auto
  qed
  moreover have "int i \<in> tid ` set (grid g b)" if "i < nat n" for i
  proof -
    from that assms(1) have "i < g * b" by linarith
    with s show ?thesis by simp
  qed
  ultimately show ?thesis by (simp add: covers_def list_all_iff)
qed

lemma launch_filter_idle:
  assumes "\<And>t m. t \<in> set ts \<Longrightarrow> \<not> P t \<Longrightarrow> k t m = Some m"
  shows "launch k ts m = launch k (filter P ts) m"
  using assms
proof (induction ts arbitrary: m)
  case Nil
  then show ?case by simp
next
  case (Cons t ts)
  then show ?case by (cases "P t") (simp_all split: option.splits)
qed

lemma launch_cong_tid:
  assumes dep: "\<And>t t' m. tid t = tid t' \<Longrightarrow> k t m = k t' m"
    and "map tid ts = map tid ts'"
  shows "launch k ts m = launch k ts' m"
  using assms(2)
proof (induction ts arbitrary: ts' m)
  case Nil
  then show ?case by simp
next
  case (Cons t ts)
  then obtain u us where ts': "ts' = u # us" and u: "tid t = tid u" and us: "map tid ts = map tid us"
    by (cases ts') auto
  from u have "k t m = k u m" by (rule dep)
  with Cons.IH [OF us] ts' show ?case by (simp split: option.splits)
qed

lemma filter_less_upt: "m \<le> n \<Longrightarrow> filter (\<lambda>i. i < m) [0..<n] = [0..<m]"
proof (induction n)
  case 0
  then show ?case by simp
next
  case (Suc n)
  show ?case
  proof (cases "m = Suc n")
    case True
    have "filter (\<lambda>i. i < Suc n) [0..<Suc n] = [0..<Suc n]"
      by (rule filter_True) simp
    with True show ?thesis by simp
  next
    case False
    with Suc show ?thesis by simp
  qed
qed

lemma bounds_noop:
  assumes idle: "\<And>t m. n \<le> tid t \<Longrightarrow> k t m = Some m"
    and dep: "\<And>t t' m. tid t = tid t' \<Longrightarrow> k t m = k t' m"
  shows "launch k ts m = launch k (filter (\<lambda>t. tid t < n) ts) m"
    and "int (g' * b') = n \<Longrightarrow> n \<le> int (g * b) \<Longrightarrow> g * b < 2 ^ 31 \<Longrightarrow>
         launch k (grid g b) m = launch k (grid g' b') m"
proof -
  show f: "launch k ts m = launch k (filter (\<lambda>t. tid t < n) ts) m" for ts
    by (rule launch_filter_idle) (simp add: idle)
  assume n: "int (g' * b') = n" "n \<le> int (g * b)" and small: "g * b < 2 ^ 31"
  then have le: "g' * b' \<le> g * b" by linarith
  with small have small': "g' * b' < 2 ^ 31" by linarith
  have "map tid (filter (\<lambda>t. tid t < n) (grid g b)) = filter (\<lambda>i. i < n) (map tid (grid g b))"
    by (simp add: filter_map o_def)
  also from small have "\<dots> = filter (\<lambda>i. i < n) (map int [0..<g * b])"
    by (simp add: map_tid_grid)
  also have "\<dots> = map int (filter (\<lambda>i. int i < n) [0..<g * b])"
    by (simp add: filter_map o_def)
  also have "(\<lambda>i. int i < n) = (\<lambda>i. i < g' * b')"
    unfolding n(1) [symmetric] by (simp only: of_nat_less_iff)
  also from le have "filter (\<lambda>i. i < g' * b') [0..<g * b] = [0..<g' * b']"
    by (simp add: filter_less_upt)
  also from small' have "map int [0..<g' * b'] = map tid (grid g' b')"
    by (simp add: map_tid_grid)
  finally have e: "map tid (filter (\<lambda>t. tid t < n) (grid g b)) = map tid (grid g' b')" .
  have "launch k (filter (\<lambda>t. tid t < n) (grid g b)) m = launch k (grid g' b') m"
  proof (rule launch_cong_tid [OF _ e])
    fix t t' m
    assume "tid t = tid t'"
    then show "k t m = k t' m" by (rule dep)
  qed
  with f [of "grid g b"] show "launch k (grid g b) m = launch k (grid g' b') m" by simp
qed

lemma inert_beyondI:
  assumes "\<And>t m. n \<le> tid t \<Longrightarrow> k t m = Some m"
    and "\<And>t t' m. tid t = tid t' \<Longrightarrow> k t m = k t' m"
  shows "inert_beyond k n"
  unfolding inert_beyond_def
proof (intro conjI allI impI)
  fix t m
  assume "n \<le> tid t"
  then show "k t m = Some m" by (rule assms(1))
next
  fix ts m
  show "launch k ts m = launch k (filter (\<lambda>t. tid t < n) ts) m"
    by (rule bounds_noop(1) [where k = k and n = n, OF assms])
next
  fix g b g' b' m
  assume "int (g' * b') = n \<and> n \<le> int (g * b) \<and> g * b < 2 ^ 31"
  then have h: "int (g' * b') = n" "n \<le> int (g * b)" "g * b < 2 ^ 31" by simp_all
  show "launch k (grid g b) m = launch k (grid g' b') m"
    by (rule bounds_noop(2) [where k = k and n = n and g = g and b = b and g' = g' and b' = b',
          OF assms h])
qed

subsection \<open>The four kernels ignore the threads beyond their count\<close>

text \<open>
  C5. In each of the four kernels a thread whose identifier is at or beyond the
  declared count (\<open>n\<close> for the scalar kernels, \<open>nX + nY\<close> for the vector kernels)
  returns the memory unchanged, whatever arrays and index lists it is given, so it
  reads and writes nothing; such threads can be left out of any launch; and a launch
  of a grid of \<open>n + k\<close> threads gives what a launch of a grid of exactly \<open>n\<close> threads
  gives. For the vector kernels the sum of the two counts must be an \<^verbatim>\<open>int\<close>, and
  for vector unpack, whose first test is against \<open>nX\<close> alone, \<open>nY\<close> must not be
  negative.
\<close>

theorem bounds_no_op:
  fixes X Y :: "('a::ring_1) list"
  shows "inert_beyond (pack_scalar src idx n off) n \<and>
         inert_beyond (unpack_scalar src idx n off) n \<and>
         (in_int (nX + nY) \<longrightarrow> inert_beyond (pack_vector X Y iX iY nX nY off rot) (nX + nY)) \<and>
         (in_int (nX + nY) \<and> 0 \<le> nY \<longrightarrow>
            inert_beyond (unpack_vector src iX iY nX nY off) (nX + nY))"
proof (intro conjI impI)
  show "inert_beyond (pack_scalar src idx n off) n"
    by (rule inert_beyondI) (simp_all add: pack_scalar_def)
  show "inert_beyond (unpack_scalar src idx n off) n"
    by (rule inert_beyondI) (simp_all add: unpack_scalar_def)
next
  assume "in_int (nX + nY)"
  then show "inert_beyond (pack_vector X Y iX iY nX nY off rot) (nX + nY)"
  proof (intro inert_beyondI)
    show "pack_vector X Y iX iY nX nY off rot t m = pack_vector X Y iX iY nX nY off rot t' m"
      if "tid t = tid t'" for t t' m
      unfolding pack_vector_def that by (rule refl)
  qed (simp add: pack_vector_idle)
next
  assume "in_int (nX + nY) \<and> 0 \<le> nY"
  then show "inert_beyond (unpack_vector src iX iY nX nY off) (nX + nY)"
  proof (intro inert_beyondI)
    show "unpack_vector src iX iY nX nY off t m = unpack_vector src iX iY nX nY off t' m"
      if "tid t = tid t'" for t t' m
      unfolding unpack_vector_def that by (rule refl)
  qed (simp add: unpack_vector_idle)
qed

theorem bounds_no_op_witness:
  "in_int (2 + 1) \<and> (0 :: int) \<le> 1 \<and>
   2 + 1 \<le> tid \<lparr>blockDim_x = 4, blockIdx_x = 1, threadIdx_x = 1\<rparr> \<and>
   unpack_vector [7, - 5, 6, 9, 7] [1, 0] [2] 2 1 1
       \<lparr>blockDim_x = 4, blockIdx_x = 1, threadIdx_x = 1\<rparr> ([0, 0], [0, 0, 0 :: int]) =
     Some ([0, 0], [0, 0, 0]) \<and>
   int (1 * 3) = 2 + 1 \<and> 2 + 1 \<le> int (2 * 4) \<and> (2 :: nat) * 4 < 2 ^ 31 \<and>
   launch (unpack_vector [7, - 5, 6, 9, 7] [1, 0] [2] 2 1 1) (grid 2 4) ([0, 0], [0, 0, 0 :: int]) =
     launch (unpack_vector [7, - 5, 6, 9, 7] [1, 0] [2] 2 1 1) (grid 1 3) ([0, 0], [0, 0, 0]) \<and>
   launch (unpack_vector [7, - 5, 6, 9, 7] [1, 0] [2] 2 1 1) (grid 1 3) ([0, 0], [0, 0, 0 :: int]) =
     Some ([6, - 5], [0, 0, 9]) \<and>
   launch (pack_vector [5, 6] [9] [1, 0] [0] 2 1 0 1) (grid 2 4) [0, 0, 0 :: int] =
     launch (pack_vector [5, 6] [9] [1, 0] [0] 2 1 0 1) (grid 1 3) [0, 0, 0] \<and>
   launch (pack_vector [5, 6] [9] [1, 0] [0] 2 1 0 1) (grid 1 3) [0, 0, 0 :: int] =
     Some [9, - 6, - 5]"
  using bounds_no_op [where nX = 2 and nY = 1 and src = "[7, - 5, 6, 9, 7 :: int]" and iX = "[1, 0]"
      and iY = "[2]" and off = 1, unfolded inert_beyond_def]
    bounds_no_op [where nX = 2 and nY = 1 and X = "[5, 6 :: int]" and Y = "[9]" and iX = "[1, 0]"
      and iY = "[0]" and off = 0 and rot = 1, unfolded inert_beyond_def]
  by (simp add: kernel_defs)

end
